theory Spec2Isabelle
  imports Complex_Main
begin

section \<open>Errors, floating-point results and arrays\<close>

text \<open>
  The program is \<^verbatim>\<open>adf_z_critical_values_simulation_large_cluster.py\<close>. Its numbers are
  numpy double-precision floats. They are modelled as real numbers (rounding and overflow are
  not modelled); the one place where the program can leave the finite numbers is the division
  \<^verbatim>\<open>xpy / xpx\<close>, which numpy evaluates to \<^verbatim>\<open>nan\<close> or \<^verbatim>\<open>inf\<close> (with a warning, not an
  exception) when the divisor is zero. Results are therefore values of \<open>npfloat\<close>.
  Python exceptions are values of \<open>error\<close>; a function that can raise returns
  \<open>error + 'a\<close> with \<open>Inl\<close> for the exception. \<open>DivisionError\<close> is the exception of
  the block-size computation of line 62 for a sample length of zero: \<^verbatim>\<open>ZeroDivisionError\<close>
  when the length is a Python \<^verbatim>\<open>int\<close>, and \<^verbatim>\<open>OverflowError\<close> when it is a numpy integer
  (as the driver passes), for which the quotient is \<^verbatim>\<open>inf\<close> and \<^verbatim>\<open>int(inf)\<close> raises.
\<close>

datatype error = ValueError | DivisionError | AssertionError

datatype npfloat = Fin real | PInf | NInf | NaN

definition np_div :: "real \<Rightarrow> real \<Rightarrow> npfloat" where
  "np_div x y =
     (if y \<noteq> 0 then Fin (x / y) else if x = 0 then NaN else if 0 < x then PInf else NInf)"

fun np_sub :: "npfloat \<Rightarrow> real \<Rightarrow> npfloat" where
  "np_sub (Fin x) c = Fin (x - c)"
| "np_sub PInf c = PInf"
| "np_sub NInf c = NInf"
| "np_sub NaN c = NaN"

fun np_mul :: "real \<Rightarrow> npfloat \<Rightarrow> npfloat" where
  "np_mul c (Fin x) = Fin (c * x)"
| "np_mul c PInf = (if c = 0 then NaN else if 0 < c then PInf else NInf)"
| "np_mul c NInf = (if c = 0 then NaN else if 0 < c then NInf else PInf)"
| "np_mul c NaN = NaN"

fun is_fin :: "npfloat \<Rightarrow> bool" where
  "is_fin (Fin x) = True"
| "is_fin _ = False"

text \<open>
  A two-dimensional numpy array carries its shape, so that an array with no rows still knows
  how many columns it has. A one-dimensional array is a list.
\<close>

record ndarray =
  shape0 :: nat
  shape1 :: nat
  rows :: "real list list"

definition wf_nd :: "ndarray \<Rightarrow> bool" where
  "wf_nd a \<longleftrightarrow> length (rows a) = shape0 a \<and> (\<forall>r \<in> set (rows a). length r = shape1 a)"

text \<open>\<^verbatim>\<open>ones((r, c))\<close>, \<^verbatim>\<open>ones(r)\<close>, \<^verbatim>\<open>arange(lo, hi)\<close>: a negative dimension raises.\<close>

definition ones2 :: "int \<Rightarrow> int \<Rightarrow> error + ndarray" where
  "ones2 r c =
     (if r < 0 \<or> c < 0 then Inl ValueError
      else Inr \<lparr>shape0 = nat r, shape1 = nat c, rows = replicate (nat r) (replicate (nat c) 1)\<rparr>)"

definition ones1 :: "int \<Rightarrow> error + real list" where
  "ones1 r = (if r < 0 then Inl ValueError else Inr (replicate (nat r) 1))"

definition arange :: "int \<Rightarrow> int \<Rightarrow> real list" where
  "arange lo hi = map real_of_int [lo..hi - 1]"

definition vstack :: "real list list \<Rightarrow> error + ndarray" where
  "vstack vs =
     (case vs of
        [] \<Rightarrow> Inl ValueError
      | v # _ \<Rightarrow>
          if \<forall>w \<in> set vs. length w = length v
          then Inr \<lparr>shape0 = length vs, shape1 = length v, rows = vs\<rparr>
          else Inl ValueError)"

definition transpose_nd :: "ndarray \<Rightarrow> ndarray" where
  "transpose_nd a =
     \<lparr>shape0 = shape1 a, shape1 = shape0 a,
      rows = map (\<lambda>j. map (\<lambda>r. r ! j) (rows a)) [0..<shape1 a]\<rparr>"

text \<open>\<^verbatim>\<open>cumsum(y, axis=0)\<close>: running sums down every column.\<close>

fun cumsum_rows :: "real list \<Rightarrow> real list list \<Rightarrow> real list list" where
  "cumsum_rows acc [] = []"
| "cumsum_rows acc (r # rs) = (let a = map2 (+) acc r in a # cumsum_rows a rs)"

definition cumsum0 :: "ndarray \<Rightarrow> ndarray" where
  "cumsum0 a = a\<lparr>rows := cumsum_rows (replicate (shape1 a) 0) (rows a)\<rparr>"

text \<open>The row slices \<^verbatim>\<open>y[k:, :]\<close> and \<^verbatim>\<open>y[:-1, :]\<close>.\<close>

definition slice_from :: "nat \<Rightarrow> ndarray \<Rightarrow> ndarray" where
  "slice_from k a = a\<lparr>shape0 := shape0 a - k, rows := drop k (rows a)\<rparr>"

definition slice_but_last :: "ndarray \<Rightarrow> ndarray" where
  "slice_but_last a = a\<lparr>shape0 := shape0 a - 1, rows := butlast (rows a)\<rparr>"

text \<open>
  Elementwise \<^verbatim>\<open>a * b\<close>, \<^verbatim>\<open>a - b\<close> and \<^verbatim>\<open>a ** 2.0\<close>. The program applies the binary
  operations to arrays of one shape only (see \<open>dot\<close> below), so no broadcasting is modelled.
\<close>

definition nd_times :: "ndarray \<Rightarrow> ndarray \<Rightarrow> ndarray" where
  "nd_times a b = a\<lparr>rows := map2 (map2 (*)) (rows a) (rows b)\<rparr>"

definition nd_minus :: "ndarray \<Rightarrow> ndarray \<Rightarrow> ndarray" where
  "nd_minus a b = a\<lparr>rows := map2 (map2 (-)) (rows a) (rows b)\<rparr>"

definition nd_square :: "ndarray \<Rightarrow> ndarray" where
  "nd_square a = a\<lparr>rows := map (map (\<lambda>x. x ^ 2)) (rows a)\<rparr>"

text \<open>\<^verbatim>\<open>sum(a, 0)\<close>: the sums of the columns, one per column, also when there is no row.\<close>

definition sum0 :: "ndarray \<Rightarrow> real list" where
  "sum0 a = foldr (map2 (+)) (rows a) (replicate (shape1 a) 0)"

text \<open>\<^verbatim>\<open>dot(a, b)\<close> raises when the inner dimensions differ.\<close>

definition dot :: "ndarray \<Rightarrow> ndarray \<Rightarrow> error + ndarray" where
  "dot a b =
     (if shape1 a \<noteq> shape0 b then Inl ValueError
      else Inr \<lparr>shape0 = shape0 a, shape1 = shape1 b,
                rows = map (\<lambda>r. map (\<lambda>j. (\<Sum>k \<leftarrow> [0..<shape1 a]. r ! k * (rows b ! k) ! j))
                                     [0..<shape1 b])
                           (rows a)\<rparr>)"

section \<open>The random source\<close>

text \<open>
  A \<^verbatim>\<open>RandomState\<close> yields one fixed sequence of standard-normal values per seed. The
  generator itself (numpy's Mersenne Twister and its Gaussian transform) is not part of the
  program; it is the parameter \<open>gauss\<close>, where \<open>gauss s k\<close> is the \<open>k\<close>-th normal value
  produced after seeding with \<open>s\<close>. The state of a generator is the sequence it is on and
  how many values it has given out. \<^verbatim>\<open>standard_normal((r, c))\<close> takes the next \<open>r * c\<close>
  values and fills the array in row-major (C) order. \<open>seeded gauss s\<close> is the generator at
  the start of the sequence of \<open>s\<close>; \<open>seed_rng\<close> is \<^verbatim>\<open>RandomState.seed\<close> for an integer
  seed, which raises \<^verbatim>\<open>ValueError\<close> for a seed outside \<open>0 .. 2^32 - 1\<close>.
\<close>

record rng_state =
  rs_stream :: "nat \<Rightarrow> real"
  rs_pos :: nat

definition seeded :: "(int \<Rightarrow> nat \<Rightarrow> real) \<Rightarrow> int \<Rightarrow> rng_state" where
  "seeded gauss s = \<lparr>rs_stream = gauss s, rs_pos = 0\<rparr>"

definition seed_rng :: "(int \<Rightarrow> nat \<Rightarrow> real) \<Rightarrow> int \<Rightarrow> error + rng_state" where
  "seed_rng gauss s = (if 0 \<le> s \<and> s < 2 ^ 32 then Inr (seeded gauss s) else Inl ValueError)"

definition standard_normal :: "int \<Rightarrow> int \<Rightarrow> rng_state \<Rightarrow> error + (ndarray \<times> rng_state)" where
  "standard_normal r c g =
     (if r < 0 \<or> c < 0 then Inl ValueError
      else Inr (\<lparr>shape0 = nat r, shape1 = nat c,
                 rows = map (\<lambda>i. map (\<lambda>j. rs_stream g (rs_pos g + i * nat c + j)) [0..<nat c])
                            [0..<nat r]\<rparr>,
                g\<lparr>rs_pos := rs_pos g + nat r * nat c\<rparr>))"

section \<open>The statistic generator \<^verbatim>\<open>adf_simulation\<close>\<close>

text \<open>
  Lines 87--95: the regressor matrix \<open>z\<close>, or \<open>None\<close> when the trend is none of
  \<^verbatim>\<open>'c'\<close>, \<^verbatim>\<open>'ct'\<close>, \<^verbatim>\<open>'ctt'\<close>.
\<close>

definition adf_regressors :: "int \<Rightarrow> string \<Rightarrow> error + ndarray option" where
  "adf_regressors n trend =
     (let nobs = n - 1 in
      if trend = ''c'' then
        (case ones2 nobs 1 of Inl e \<Rightarrow> Inl e | Inr z \<Rightarrow> Inr (Some z))
      else if trend = ''ct'' then
        (case ones1 nobs of Inl e \<Rightarrow> Inl e
         | Inr o1 \<Rightarrow>
             (case vstack [o1, arange 1 (nobs + 1)] of Inl e \<Rightarrow> Inl e
              | Inr v \<Rightarrow> Inr (Some (transpose_nd v))))
      else if trend = ''ctt'' then
        (let tau = arange 1 (nobs + 1) in
         case ones1 nobs of Inl e \<Rightarrow> Inl e
         | Inr o1 \<Rightarrow>
             (case vstack [o1, tau, map (\<lambda>x. x ^ 2) tau] of Inl e \<Rightarrow> Inl e
              | Inr v \<Rightarrow> Inr (Some (transpose_nd v))))
      else Inr None)"

text \<open>Line 97: the matrix of normal values that is drawn.\<close>

definition adf_draw :: "int \<Rightarrow> int \<Rightarrow> rng_state \<Rightarrow> error + (ndarray \<times> rng_state)" where
  "adf_draw n b g = standard_normal (n + 50) b g"

text \<open>Lines 98--101: the random walks, the burn-in, the left-hand and the lagged series.\<close>

definition adf_walk :: "ndarray \<Rightarrow> ndarray" where
  "adf_walk y0 = slice_from 50 (cumsum0 y0)"

definition adf_lead :: "ndarray \<Rightarrow> ndarray" where
  "adf_lead y = slice_from 1 y"

definition adf_lag :: "ndarray \<Rightarrow> ndarray" where
  "adf_lag y = slice_but_last y"

text \<open>
  Lines 102--107: the residuals of both series on \<open>z\<close>. \<^verbatim>\<open>pinv\<close> is numpy's
  pseudo-inverse, a parameter here. When both products succeed, \<open>dot z beta\<close> has the shape of
  the series it is subtracted from.
\<close>

definition residual :: "ndarray \<Rightarrow> ndarray \<Rightarrow> ndarray \<Rightarrow> error + ndarray" where
  "residual z z_inv x =
     (case dot z_inv x of Inl e \<Rightarrow> Inl e
      | Inr beta \<Rightarrow> (case dot z beta of Inl e \<Rightarrow> Inl e | Inr fit \<Rightarrow> Inr (nd_minus x fit)))"

definition adf_residualize ::
  "(ndarray \<Rightarrow> ndarray) \<Rightarrow> ndarray option \<Rightarrow> ndarray \<Rightarrow> ndarray \<Rightarrow> error + (ndarray \<times> ndarray)"
where
  "adf_residualize pinv z lhs rhs =
     (case z of
        None \<Rightarrow> Inr (lhs, rhs)
      | Some zm \<Rightarrow>
          (let z_inv = pinv zm in
           case residual zm z_inv lhs of Inl e \<Rightarrow> Inl e
           | Inr lhs' \<Rightarrow>
               (case residual zm z_inv rhs of Inl e \<Rightarrow> Inl e
                | Inr rhs' \<Rightarrow> Inr (lhs', rhs'))))"

text \<open>Lines 109--114: the statistic of every column.\<close>

definition adf_stat :: "ndarray \<Rightarrow> ndarray \<Rightarrow> npfloat list" where
  "adf_stat lhs rhs =
     (let xpy = sum0 (nd_times rhs lhs);
          xpx = sum0 (nd_square rhs);
          gamma = map2 np_div xpy xpx;
          nobs = shape0 lhs
      in map (\<lambda>g. np_mul (real nobs) (np_sub g 1)) gamma)"

text \<open>
  The whole function. Its argument \<open>rng\<close> is an optional \<^verbatim>\<open>RandomState\<close>; \<open>glob\<close> is
  the state of numpy's module-level generator, which the function reseeds with 0 and draws
  from when \<open>rng\<close> is \<open>None\<close> (lines 81--85). It returns the statistics, the state of
  \<open>rng\<close> after the call and the state of the module-level generator after the call.
\<close>

definition adf_simulation ::
  "(int \<Rightarrow> nat \<Rightarrow> real) \<Rightarrow> (ndarray \<Rightarrow> ndarray) \<Rightarrow> int \<Rightarrow> string \<Rightarrow> int \<Rightarrow>
   rng_state option \<Rightarrow> rng_state \<Rightarrow> error + (npfloat list \<times> rng_state option \<times> rng_state)"
where
  "adf_simulation gauss pinv n trend b rng glob =
     (case (case rng of None \<Rightarrow> seed_rng gauss 0 | Some r \<Rightarrow> Inr r) of Inl e \<Rightarrow> Inl e
      | Inr src \<Rightarrow>
          (case adf_regressors n trend of Inl e \<Rightarrow> Inl e
           | Inr z \<Rightarrow>
               (case adf_draw n b src of Inl e \<Rightarrow> Inl e
                | Inr (y0, src') \<Rightarrow>
                    (let y = adf_walk y0 in
                     case adf_residualize pinv z (adf_lead y) (adf_lag y) of Inl e \<Rightarrow> Inl e
                     | Inr (lhs, rhs) \<Rightarrow>
                         Inr (adf_stat lhs rhs,
                              (case rng of None \<Rightarrow> None | Some _ \<Rightarrow> Some src'),
                              (case rng of None \<Rightarrow> src' | Some _ \<Rightarrow> glob))))))"

section \<open>The batch runner \<^verbatim>\<open>wrapper\<close>\<close>

text \<open>
  \<^verbatim>\<open>int(x)\<close> truncates towards zero. \<open>py_range stop step\<close> is \<^verbatim>\<open>range(0, stop, step)\<close>
  for a step other than zero (a zero step raises, which \<open>wrapper\<close> checks before).
\<close>

definition py_int :: "real \<Rightarrow> int" where
  "py_int x = (if 0 \<le> x then \<lfloor>x\<rfloor> else \<lceil>x\<rceil>)"

definition py_range :: "int \<Rightarrow> int \<Rightarrow> int list" where
  "py_range stop step =
     (if 0 < step then map (\<lambda>k. int k * step) [0..<nat ((stop + step - 1) div step)]
      else map (\<lambda>k. int k * step) [0..<nat ((stop + step + 1) div step)])"

text \<open>
  The slice assignment \<^verbatim>\<open>res[st:en] = v\<close> on a one-dimensional array: the bounds are
  clipped to the array, a value of the slice's length is copied, a value of length one is
  broadcast, and any other length raises.
\<close>

definition clip_index :: "nat \<Rightarrow> int \<Rightarrow> nat" where
  "clip_index len i = (if i < 0 then nat (max 0 (i + int len)) else min (nat i) len)"

definition set_slice :: "npfloat list \<Rightarrow> int \<Rightarrow> int \<Rightarrow> npfloat list \<Rightarrow> error + npfloat list" where
  "set_slice xs st en v =
     (let lo = clip_index (length xs) st;
          hi = max lo (clip_index (length xs) en);
          len = hi - lo
      in if length v = len then Inr (take lo xs @ v @ drop hi xs)
         else if length v = 1 then Inr (take lo xs @ replicate len (hd v) @ drop hi xs)
         else Inl ValueError)"

record wrapper_state =
  w_remaining :: int
  w_res :: "npfloat list"
  w_finished :: int
  w_rng :: rng_state
  w_glob :: rng_state

text \<open>Lines 64--72: one pass of the loop body (the loop variable \<open>j\<close> is not used).\<close>

definition wrapper_body ::
  "(int \<Rightarrow> nat \<Rightarrow> real) \<Rightarrow> (ndarray \<Rightarrow> ndarray) \<Rightarrow> int \<Rightarrow> string \<Rightarrow> int \<Rightarrow>
   wrapper_state \<Rightarrow> error + wrapper_state"
where
  "wrapper_body gauss pinv n trend block_size s =
     (let count = (if block_size < w_remaining s then block_size else w_remaining s);
          st = w_finished s;
          en = w_finished s + count
      in case adf_simulation gauss pinv n trend count (Some (w_rng s)) (w_glob s) of
           Inl e \<Rightarrow> Inl e
         | Inr (stat, rng', glob') \<Rightarrow>
             (case set_slice (w_res s) st en stat of
                Inl e \<Rightarrow> Inl e
              | Inr res' \<Rightarrow>
                  Inr (s\<lparr>w_res := res',
                         w_rng := (case rng' of None \<Rightarrow> w_rng s | Some r \<Rightarrow> r),
                         w_glob := glob',
                         w_finished := w_finished s + count,
                         w_remaining := w_remaining s - count\<rparr>)))"

fun wrapper_loop ::
  "(int \<Rightarrow> nat \<Rightarrow> real) \<Rightarrow> (ndarray \<Rightarrow> ndarray) \<Rightarrow> int \<Rightarrow> string \<Rightarrow> int \<Rightarrow>
   int list \<Rightarrow> wrapper_state \<Rightarrow> error + wrapper_state"
where
  "wrapper_loop gauss pinv n trend block_size [] s = Inr s"
| "wrapper_loop gauss pinv n trend block_size (j # js) s =
     (case wrapper_body gauss pinv n trend block_size s of
        Inl e \<Rightarrow> Inl e
      | Inr s' \<Rightarrow> wrapper_loop gauss pinv n trend block_size js s')"

text \<open>
  The block size of line 62 for the memory budget \<open>M\<close> (\<^verbatim>\<open>MAX_MEMORY_SIZE\<close>, in MiB) and
  the sample length \<open>n\<close>, for \<open>n \<noteq> 0\<close>.
\<close>

definition block_size_of :: "real \<Rightarrow> int \<Rightarrow> int" where
  "block_size_of M n = py_int (2 ^ 20 * M / (8 * real_of_int n))"

text \<open>
  The whole function, with the memory budget as its first argument. In the order of the
  code: \<^verbatim>\<open>rng.seed(rng_seed)\<close> (line 58) raises for a seed outside \<open>0 .. 2^32 - 1\<close>,
  \<^verbatim>\<open>zeros(b)\<close> (line 60) raises for a negative \<open>b\<close>, the block-size computation of
  line 62 raises for \<open>n = 0\<close>, and \<^verbatim>\<open>range\<close> raises for a step of zero. The function
  returns \<open>res\<close>; the second component of the model's result is the state of the module-level
  generator after the call.
\<close>

definition wrapper ::
  "real \<Rightarrow> (int \<Rightarrow> nat \<Rightarrow> real) \<Rightarrow> (ndarray \<Rightarrow> ndarray) \<Rightarrow> int \<Rightarrow> string \<Rightarrow> int \<Rightarrow> int \<Rightarrow>
   rng_state \<Rightarrow> error + (npfloat list \<times> rng_state)"
where
  "wrapper M gauss pinv n trend b rng_seed glob =
     (case seed_rng gauss rng_seed of Inl e \<Rightarrow> Inl e
      | Inr rng \<Rightarrow>
          if b < 0 then Inl ValueError
          else if n = 0 then Inl DivisionError
          else
            (let block_size = block_size_of M n in
             if block_size = 0 then Inl ValueError
             else
               (case wrapper_loop gauss pinv n trend block_size (py_range b block_size)
                       \<lparr>w_remaining = b, w_res = replicate (nat b) (Fin 0), w_finished = 0,
                        w_rng = rng, w_glob = glob\<rparr> of
                  Inl e \<Rightarrow> Inl e
                | Inr s \<Rightarrow> Inr (w_res s, w_glob s))))"

text \<open>Concrete inputs used to run the definitions.\<close>

definition ramp :: "int \<Rightarrow> nat \<Rightarrow> real" where
  "ramp s k = real k + 1"

definition zero_glob :: rng_state where
  "zero_glob = \<lparr>rs_stream = (\<lambda>k. 0), rs_pos = 0\<rparr>"

definition pinv_ones :: "ndarray \<Rightarrow> ndarray" where
  "pinv_ones z =
     \<lparr>shape0 = 1, shape1 = shape0 z, rows = [replicate (shape0 z) (1 / real (shape0 z))]\<rparr>"


section \<open>The worker pool and \<^verbatim>\<open>clear_cache\<close>\<close>

text \<open>
  The IPython client and view are outside the program. What the program reads and writes of
  them is modelled: the set of outstanding task ids, and the caches that \<^verbatim>\<open>clear_cache\<close>
  empties (the controller's stored results, which \<^verbatim>\<open>purge_results('all')\<close> drops, and the
  client's and the view's results, metadata and histories).
\<close>

record client =
  outstanding :: "nat set"
  hub_results :: "nat \<rightharpoonup> npfloat list"
  c_results :: "nat \<rightharpoonup> npfloat list"
  c_metadata :: "nat \<rightharpoonup> string"
  c_history :: "nat list"
  digest_history :: "nat set"

record view =
  v_results :: "nat \<rightharpoonup> npfloat list"
  v_history :: "nat list"

text \<open>
  Lines 40--49. The assertion reads the module-level client \<open>rc\<close>, not the argument
  \<open>client\<close>; the purge is applied to the arguments. The program's only call passes \<open>rc\<close>
  itself as \<open>client\<close>.
\<close>

definition clear_cache :: "client \<Rightarrow> client \<Rightarrow> view \<Rightarrow> error + (client \<times> view)" where
  "clear_cache rc cl vw =
     (if outstanding rc \<noteq> {} then Inl AssertionError
      else Inr (cl\<lparr>hub_results := Map.empty, c_results := Map.empty, c_metadata := Map.empty,
                   c_history := [], digest_history := {}\<rparr>,
                vw\<lparr>v_results := Map.empty, v_history := []\<rparr>))"

text \<open>
  What the pool does with a batch, as the program relies on it: submitting tasks makes their
  ids outstanding and records them in the histories; when the batch is ready, its ids are no
  longer outstanding and its results are cached.
\<close>

definition pool_submit :: "nat list \<Rightarrow> client \<times> view \<Rightarrow> client \<times> view" where
  "pool_submit ids p =
     (case p of (cl, vw) \<Rightarrow>
        (cl\<lparr>outstanding := outstanding cl \<union> set ids, c_history := c_history cl @ ids\<rparr>,
         vw\<lparr>v_history := v_history vw @ ids\<rparr>))"

definition pool_ready :: "nat list \<Rightarrow> npfloat list list \<Rightarrow> client \<times> view \<Rightarrow> client \<times> view" where
  "pool_ready ids out p =
     (case p of (cl, vw) \<Rightarrow>
        (cl\<lparr>outstanding := outstanding cl - set ids,
            hub_results := hub_results cl ++ map_of (zip ids out),
            c_results := c_results cl ++ map_of (zip ids out)\<rparr>,
         vw\<lparr>v_results := v_results vw ++ map_of (zip ids out)\<rparr>))"

section \<open>The driver\<close>

text \<open>The constants of lines 26--30 and 124--131.\<close>

definition EX_NUM :: nat where
  "EX_NUM = 500"

definition EX_SIZE :: int where
  "EX_SIZE = 200000"

definition MAX_MEMORY_SIZE :: real where
  "MAX_MEMORY_SIZE = 100"

definition trends :: "string list" where
  "trends = [''nc'', ''c'', ''ct'', ''ctt'']"

definition T :: "int list" where
  "T = rev [20, 25, 30, 35, 40, 45, 50, 60, 70, 80, 90, 100, 120, 140, 160,
            180, 200, 250, 300, 350, 400, 450, 500, 600, 700, 800, 900,
            1000, 1200, 1400, 2000]"

definition m :: nat where
  "m = length T"

text \<open>\<^verbatim>\<open>arange(start, stop, step)\<close> with a positive fractional step.\<close>

definition arange_step :: "real \<Rightarrow> real \<Rightarrow> real \<Rightarrow> real list" where
  "arange_step start stop step =
     map (\<lambda>k. start + real k * step) [0..<nat \<lceil>(stop - start) / step\<rceil>]"

definition percentiles :: "real list" where
  "percentiles = arange_step (1 / 2) 100 (1 / 2)"

text \<open>
  Lines 132--133: the seeds, drawn once before the loops. \<open>rint k\<close> is the \<open>k\<close>-th integer
  that \<^verbatim>\<open>random_integers\<close> yields after \<^verbatim>\<open>seed(0)\<close> (numpy's generator, a parameter).
\<close>

definition seeds :: "(nat \<Rightarrow> int) \<Rightarrow> int list" where
  "seeds rint = map rint [0..<EX_NUM]"

text \<open>
  Lines 147--148: the argument tuples of the units of work that one \<^verbatim>\<open>map_async\<close> call
  submits, in order, and the results of the units: the function is applied to the \<open>k\<close>-th
  elements of the four sequences.
\<close>

definition submit_args :: "int list \<Rightarrow> int \<Rightarrow> string \<Rightarrow> (int \<times> string \<times> int \<times> int) list" where
  "submit_args sds t tr =
     zip (replicate EX_NUM t) (zip (replicate EX_NUM tr) (zip (replicate EX_NUM EX_SIZE) sds))"

definition map_async ::
  "(int \<Rightarrow> string \<Rightarrow> int \<Rightarrow> int \<Rightarrow> 'r) \<Rightarrow> (int \<times> string \<times> int \<times> int) list \<Rightarrow> 'r list" where
  "map_async f args = map (\<lambda>(n, tr, b, s). f n tr b s) args"

text \<open>\<^verbatim>\<open>res.get()\<close> raises when a unit of work raised; otherwise it returns the results in order.\<close>

fun collect :: "('e + 'a) list \<Rightarrow> 'e + 'a list" where
  "collect [] = Inr []"
| "collect (Inl e # xs) = Inl e"
| "collect (Inr x # xs) = (case collect xs of Inl e \<Rightarrow> Inl e | Inr ys \<Rightarrow> Inr (x # ys))"

text \<open>
  Modelled from the spec: \<^verbatim>\<open>numpy.percentile\<close>, which reduces a replication's draws to
  the percentile grid, is a library function and not part of the source. It is modelled as
  the empirical percentile with linear interpolation (numpy's default): the data are sorted,
  level \<open>q\<close> is at the virtual index \<open>q / 100 * (N - 1)\<close>, and the value is interpolated
  between the two neighbouring order statistics. A level outside \<open>[0, 100]\<close> raises. On data
  that are empty or hold a value that is not finite the model returns \<^verbatim>\<open>nan\<close> at every level.
\<close>

definition percentile1 :: "real list \<Rightarrow> real \<Rightarrow> real" where
  "percentile1 xs q =
     (let s = sort xs;
          h = q / 100 * real (length xs - 1);
          lo = nat \<lfloor>h\<rfloor>;
          hi = min (lo + 1) (length xs - 1);
          w = h - real lo
      in s ! lo * (1 - w) + s ! hi * w)"

fun the_fin :: "npfloat \<Rightarrow> real" where
  "the_fin (Fin x) = x"
| "the_fin _ = 0"

definition percentile :: "npfloat list \<Rightarrow> real list \<Rightarrow> error + npfloat list" where
  "percentile x qs =
     (if \<exists>q \<in> set qs. q < 0 \<or> 100 < q then Inl ValueError
      else if x = [] \<or> \<not> list_all is_fin x then Inr (map (\<lambda>q. NaN) qs)
      else Inr (map (\<lambda>q. Fin (percentile1 (map the_fin x) q)) qs))"

text \<open>
  The results table \<^verbatim>\<open>results[p, i, r]\<close> is a list of planes, one per percentile level, each
  a list over the sample lengths of the rows over the replications. Line 136 creates it as
  \<^verbatim>\<open>zeros(...) * nan\<close>. Line 165 writes the transposed quantiles into the slice of the
  sample length \<open>i\<close>; \<open>i\<close> comes from \<^verbatim>\<open>enumerate(T)\<close> and is in range, and the quantiles
  have the slice's shape because every batch has \<open>EX_NUM\<close> units.
\<close>

type_synonym table = "npfloat list list list"

definition nan_table :: "nat \<Rightarrow> nat \<Rightarrow> nat \<Rightarrow> table" where
  "nan_table np nl nr = map (map (map (\<lambda>z. np_mul z NaN))) (replicate np (replicate nl (replicate nr 0)))"

definition transpose_q :: "nat \<Rightarrow> npfloat list list \<Rightarrow> npfloat list list" where
  "transpose_q np quantiles = map (\<lambda>p. map (\<lambda>q. q ! p) quantiles) [0..<np]"

definition set_length_slice :: "table \<Rightarrow> nat \<Rightarrow> npfloat list list \<Rightarrow> table" where
  "set_length_slice results i qt = map2 (\<lambda>plane row. plane[i := row]) results qt"

text \<open>The artifact that \<^verbatim>\<open>savez\<close> writes, and the files written so far.\<close>

record artifact =
  a_trend :: string
  a_results :: table
  a_percentiles :: "real list"
  a_T :: "int list"

record driver_state =
  d_results :: table
  d_disk :: "string \<rightharpoonup> artifact"
  d_rc :: client
  d_lview :: view

text \<open>
  Lines 139--168 for one sample length \<open>t\<close> with index \<open>i\<close>: submit, wait, collect, clear
  the caches, reduce, store, save. \<open>run\<close> is the function given to \<^verbatim>\<open>map_async\<close>, as the
  engines execute it. The polling loop of lines 150--156 changes nothing but the clock and
  the log; the round below is the round of a batch that becomes ready. The task ids of the
  round are \<open>i * EX_NUM, \<dots>, i * EX_NUM + EX_NUM - 1\<close>.
\<close>

definition driver_round ::
  "(int \<Rightarrow> string \<Rightarrow> int \<Rightarrow> int \<Rightarrow> error + npfloat list) \<Rightarrow> int list \<Rightarrow> string \<Rightarrow>
   nat \<times> int \<Rightarrow> driver_state \<Rightarrow> error + driver_state"
where
  "driver_round run sds tr it st =
     (case it of (i, t) \<Rightarrow>
        (let ids = [i * EX_NUM..<i * EX_NUM + EX_NUM];
             res = map_async run (submit_args sds t tr);
             pool = pool_submit ids (d_rc st, d_lview st)
         in case collect res of
              Inl e \<Rightarrow> Inl e
            | Inr out \<Rightarrow>
                (let pool' = pool_ready ids out pool
                 in case clear_cache (fst pool') (fst pool') (snd pool') of
                      Inl e \<Rightarrow> Inl e
                    | Inr (rc', lview') \<Rightarrow>
                        (case collect (map (\<lambda>x. percentile x percentiles) out) of
                           Inl e \<Rightarrow> Inl e
                         | Inr quantiles \<Rightarrow>
                             (let results' =
                                    set_length_slice (d_results st) i
                                      (transpose_q (length percentiles) quantiles)
                              in Inr (st\<lparr>d_results := results',
                                        d_disk := (d_disk st)
                                          (''adf_z_'' @ tr @ ''.npz'' \<mapsto>
                                             \<lparr>a_trend = tr, a_results = results',
                                              a_percentiles = percentiles, a_T = T\<rparr>),
                                        d_rc := rc', d_lview := lview'\<rparr>))))))"

fun driver_rounds ::
  "(int \<Rightarrow> string \<Rightarrow> int \<Rightarrow> int \<Rightarrow> error + npfloat list) \<Rightarrow> int list \<Rightarrow> string \<Rightarrow>
   (nat \<times> int) list \<Rightarrow> driver_state \<Rightarrow> error + driver_state"
where
  "driver_rounds run sds tr [] st = Inr st"
| "driver_rounds run sds tr (it # its) st =
     (case driver_round run sds tr it st of
        Inl e \<Rightarrow> Inl e
      | Inr st' \<Rightarrow> driver_rounds run sds tr its st')"

text \<open>Lines 135--139: the start of a trend, and the loop over the sample lengths.\<close>

definition driver_init :: "driver_state \<Rightarrow> driver_state" where
  "driver_init st = st\<lparr>d_results := nan_table (length percentiles) m EX_NUM\<rparr>"

definition driver_trend ::
  "(int \<Rightarrow> string \<Rightarrow> int \<Rightarrow> int \<Rightarrow> error + npfloat list) \<Rightarrow> int list \<Rightarrow> string \<Rightarrow>
   driver_state \<Rightarrow> error + driver_state"
where
  "driver_trend run sds tr st = driver_rounds run sds tr (enumerate 0 T) (driver_init st)"

fun driver_trends ::
  "(int \<Rightarrow> string \<Rightarrow> int \<Rightarrow> int \<Rightarrow> error + npfloat list) \<Rightarrow> int list \<Rightarrow> string list \<Rightarrow>
   driver_state \<Rightarrow> error + driver_state"
where
  "driver_trends run sds [] st = Inr st"
| "driver_trends run sds (tr # trs) st =
     (case driver_trend run sds tr st of
        Inl e \<Rightarrow> Inl e
      | Inr st' \<Rightarrow> driver_trends run sds trs st')"

text \<open>
  The unit of work as an engine runs it, and the whole program. Every engine has its own
  module-level generator \<open>glob\<close>.
\<close>

definition engine_run ::
  "(int \<Rightarrow> nat \<Rightarrow> real) \<Rightarrow> (ndarray \<Rightarrow> ndarray) \<Rightarrow> rng_state \<Rightarrow>
   int \<Rightarrow> string \<Rightarrow> int \<Rightarrow> int \<Rightarrow> error + npfloat list"
where
  "engine_run gauss pinv glob n tr b s =
     map_sum id fst (wrapper MAX_MEMORY_SIZE gauss pinv n tr b s glob)"

definition driver ::
  "(int \<Rightarrow> nat \<Rightarrow> real) \<Rightarrow> (ndarray \<Rightarrow> ndarray) \<Rightarrow> rng_state \<Rightarrow> (nat \<Rightarrow> int) \<Rightarrow>
   driver_state \<Rightarrow> error + driver_state"
where
  "driver gauss pinv glob rint st =
     driver_trends (engine_run gauss pinv glob) (seeds rint) trends st"

text \<open>More concrete inputs.\<close>

definition idle_client :: client where
  "idle_client =
     \<lparr>outstanding = {}, hub_results = Map.empty, c_results = Map.empty, c_metadata = Map.empty,
      c_history = [], digest_history = {}\<rparr>"

definition busy_client :: client where
  "busy_client = idle_client\<lparr>outstanding := {7}, c_history := [7]\<rparr>"

definition idle_view :: view where
  "idle_view = \<lparr>v_results = Map.empty, v_history = []\<rparr>"

definition start_state :: driver_state where
  "start_state = \<lparr>d_results = [], d_disk = Map.empty, d_rc = idle_client, d_lview = idle_view\<rparr>"

text \<open>
  What the program relies on of \<^verbatim>\<open>pinv\<close>: the pseudo-inverse of an \<open>(r, k)\<close> matrix is a
  \<open>(k, r)\<close> matrix.
\<close>

definition pinv_shaped :: "(ndarray \<Rightarrow> ndarray) \<Rightarrow> ndarray \<Rightarrow> bool" where
  "pinv_shaped pinv z \<longleftrightarrow>
     wf_nd (pinv z) \<and> shape0 (pinv z) = shape1 z \<and> shape1 (pinv z) = shape0 z"

text \<open>
  The state of the results table after \<open>k\<close> completed sample lengths: it has one plane per
  percentile level, every plane one row of \<open>EX_NUM\<close> entries per sample length, the rows of
  the first \<open>k\<close> sample lengths hold finite values only, and all other rows hold the missing
  sentinel \<^verbatim>\<open>nan\<close> only.
\<close>

definition table_filled :: "nat \<Rightarrow> table \<Rightarrow> bool" where
  "table_filled k tbl \<longleftrightarrow>
     length tbl = length percentiles \<and>
     (\<forall>plane \<in> set tbl.
        length plane = m \<and>
        (\<forall>i<m. length (plane ! i) = EX_NUM \<and>
           (i < k \<longrightarrow> (\<forall>v \<in> set (plane ! i). is_fin v)) \<and>
           (k \<le> i \<longrightarrow> (\<forall>v \<in> set (plane ! i). v = NaN))))"

text \<open>The units of work return draws: a non-empty vector of finite values, for every sample
  length of \<open>T\<close> and every seed.\<close>

definition finite_draws ::
  "(int \<Rightarrow> string \<Rightarrow> int \<Rightarrow> int \<Rightarrow> error + npfloat list) \<Rightarrow> int list \<Rightarrow> string \<Rightarrow> bool" where
  "finite_draws run sds tr \<longleftrightarrow>
     (\<forall>t \<in> set T. \<forall>s \<in> set sds.
        \<exists>xs. run t tr EX_SIZE s = Inr xs \<and> xs \<noteq> [] \<and> list_all is_fin xs)"

text \<open>
  The units of work that return at all return finite statistics only: in no replication is
  the divisor \<^verbatim>\<open>xpx\<close> of line 111 zero.
\<close>

definition finite_statistics ::
  "(int \<Rightarrow> string \<Rightarrow> int \<Rightarrow> int \<Rightarrow> error + npfloat list) \<Rightarrow> int list \<Rightarrow> string \<Rightarrow> bool" where
  "finite_statistics run sds tr \<longleftrightarrow>
     (\<forall>t \<in> set T. \<forall>s \<in> set sds. \<forall>xs. run t tr EX_SIZE s = Inr xs \<longrightarrow> list_all is_fin xs)"

text \<open>A generator that yields the value zero only, on the sequence of every seed.\<close>

definition zero_gauss :: "int \<Rightarrow> nat \<Rightarrow> real" where
  "zero_gauss s k = 0"

section \<open>Seeding\<close>

lemma seed_rng_valid: "0 \<le> s \<Longrightarrow> s < 2 ^ 32 \<Longrightarrow> seed_rng gauss s = Inr (seeded gauss s)"
  by (simp add: seed_rng_def)

lemma seed_rng_invalid: "s < 0 \<or> 2 ^ 32 \<le> s \<Longrightarrow> seed_rng gauss s = Inl ValueError"
  by (auto simp: seed_rng_def)

lemma adf_simulation_eq:
  "adf_simulation gauss pinv n trend b rng glob =
     (let src = (case rng of None \<Rightarrow> seeded gauss 0 | Some r \<Rightarrow> r) in
      case adf_regressors n trend of Inl e \<Rightarrow> Inl e
      | Inr z \<Rightarrow>
          (case adf_draw n b src of Inl e \<Rightarrow> Inl e
           | Inr (y0, src') \<Rightarrow>
               (let y = adf_walk y0 in
                case adf_residualize pinv z (adf_lead y) (adf_lag y) of Inl e \<Rightarrow> Inl e
                | Inr (lhs, rhs) \<Rightarrow>
                    Inr (adf_stat lhs rhs,
                         (case rng of None \<Rightarrow> None | Some _ \<Rightarrow> Some src'),
                         (case rng of None \<Rightarrow> src' | Some _ \<Rightarrow> glob)))))"
  by (cases rng; clarsimp simp: adf_simulation_def seed_rng_def Let_def)

lemma wrapper_eq:
  assumes "0 \<le> sd" "sd < 2 ^ 32"
  shows "wrapper M gauss pinv n trend b sd glob =
     (let rng = seeded gauss sd in
      if b < 0 then Inl ValueError
      else if n = 0 then Inl DivisionError
      else
        (let block_size = block_size_of M n in
         if block_size = 0 then Inl ValueError
         else
           (case wrapper_loop gauss pinv n trend block_size (py_range b block_size)
                   \<lparr>w_remaining = b, w_res = replicate (nat b) (Fin 0), w_finished = 0,
                    w_rng = rng, w_glob = glob\<rparr> of
              Inl e \<Rightarrow> Inl e
            | Inr s \<Rightarrow> Inr (w_res s, w_glob s))))"
  using assms by (simp add: wrapper_def seed_rng_def Let_def)

lemma wrapper_invalid_seed:
  "sd < 0 \<or> 2 ^ 32 \<le> sd \<Longrightarrow> wrapper M gauss pinv n trend b sd glob = Inl ValueError"
  by (auto simp: wrapper_def seed_rng_def)

section \<open>Shapes and entries of the arrays\<close>

lemma length_cumsum_rows [simp]: "length (cumsum_rows acc rs) = length rs"
  by (induction rs arbitrary: acc) (auto simp: Let_def)

lemma cumsum_rows_row_length:
  "length acc = c \<Longrightarrow> \<forall>r \<in> set rs. length r = c \<Longrightarrow> \<forall>r \<in> set (cumsum_rows acc rs). length r = c"
proof (induction rs arbitrary: acc)
  case Nil
  show ?case by simp
next
  case (Cons r rs)
  have len: "length (map2 (+) acc r) = c" using Cons.prems by simp
  have rest: "\<forall>r \<in> set rs. length r = c" using Cons.prems by simp
  show ?case using Cons.IH [OF len rest] len by (simp add: Let_def)
qed

lemma cumsum_rows_nth:
  "length acc = c \<Longrightarrow> \<forall>r \<in> set rs. length r = c \<Longrightarrow> t < length rs \<Longrightarrow> j < c \<Longrightarrow>
   cumsum_rows acc rs ! t ! j = acc ! j + (\<Sum>i<Suc t. rs ! i ! j)"
proof (induction rs arbitrary: acc t)
  case Nil
  then show ?case by simp
next
  case (Cons r rs)
  show ?case
  proof (cases t)
    case 0
    with Cons.prems show ?thesis by (simp add: Let_def)
  next
    case (Suc t')
    have len: "length (map2 (+) acc r) = c" using Cons.prems by simp
    have "cumsum_rows acc (r # rs) ! t ! j = cumsum_rows (map2 (+) acc r) rs ! t' ! j"
      using Suc by (simp add: Let_def)
    also have "\<dots> = map2 (+) acc r ! j + (\<Sum>i<Suc t'. rs ! i ! j)"
      using Cons.IH [OF len, of t'] Cons.prems Suc by simp
    also have "\<dots> = acc ! j + (r ! j + (\<Sum>i<Suc t'. rs ! i ! j))"
      using Cons.prems by simp
    also have "r ! j + (\<Sum>i<Suc t'. rs ! i ! j) = (\<Sum>i<Suc t. (r # rs) ! i ! j)"
      unfolding Suc by (subst (2) sum.lessThan_Suc_shift) simp
    finally show ?thesis .
  qed
qed

lemma wf_standard_normal:
  "standard_normal r c g = Inr (y, g') \<Longrightarrow>
   wf_nd y \<and> shape0 y = nat r \<and> shape1 y = nat c \<and> 0 \<le> r \<and> 0 \<le> c \<and>
   g' = g\<lparr>rs_pos := rs_pos g + nat r * nat c\<rparr>"
  by (auto simp: standard_normal_def wf_nd_def split: if_splits)

lemma standard_normal_nth:
  "standard_normal r c g = Inr (y, g') \<Longrightarrow> i < nat r \<Longrightarrow> j < nat c \<Longrightarrow>
   rows y ! i ! j = rs_stream g (rs_pos g + i * nat c + j)"
  by (auto simp: standard_normal_def split: if_splits)

lemma wf_cumsum0: "wf_nd a \<Longrightarrow> wf_nd (cumsum0 a)"
  using cumsum_rows_row_length [of "replicate (shape1 a) 0" "shape1 a" "rows a"]
  by (simp add: wf_nd_def cumsum0_def)

lemma wf_slice_from: "wf_nd a \<Longrightarrow> wf_nd (slice_from k a)"
  by (auto simp: wf_nd_def slice_from_def dest: in_set_dropD)

lemma wf_slice_but_last: "wf_nd a \<Longrightarrow> wf_nd (slice_but_last a)"
  by (auto simp: wf_nd_def slice_but_last_def dest: in_set_butlastD)

lemma shape_walk [simp]:
  "shape0 (adf_walk a) = shape0 a - 50" "shape1 (adf_walk a) = shape1 a"
  by (simp_all add: adf_walk_def slice_from_def cumsum0_def)

lemma shape_lead [simp]:
  "shape0 (adf_lead a) = shape0 a - 1" "shape1 (adf_lead a) = shape1 a"
  by (simp_all add: adf_lead_def slice_from_def)

lemma shape_lag [simp]:
  "shape0 (adf_lag a) = shape0 a - 1" "shape1 (adf_lag a) = shape1 a"
  by (simp_all add: adf_lag_def slice_but_last_def)

lemma wf_walk: "wf_nd a \<Longrightarrow> wf_nd (adf_walk a)"
  by (simp add: adf_walk_def wf_slice_from wf_cumsum0)

lemma wf_lead: "wf_nd a \<Longrightarrow> wf_nd (adf_lead a)"
  by (simp add: adf_lead_def wf_slice_from)

lemma wf_lag: "wf_nd a \<Longrightarrow> wf_nd (adf_lag a)"
  by (simp add: adf_lag_def wf_slice_but_last)

lemma walk_nth:
  assumes "wf_nd a" "t + 50 < shape0 a" "j < shape1 a"
  shows "rows (adf_walk a) ! t ! j = (\<Sum>i<t + 51. rows a ! i ! j)"
proof -
  have "rows (adf_walk a) ! t = cumsum_rows (replicate (shape1 a) 0) (rows a) ! (50 + t)"
    using assms by (simp add: adf_walk_def slice_from_def cumsum0_def wf_nd_def)
  moreover have "cumsum_rows (replicate (shape1 a) 0) (rows a) ! (50 + t) ! j
      = replicate (shape1 a) 0 ! j + (\<Sum>i<Suc (50 + t). rows a ! i ! j)"
    using assms by (intro cumsum_rows_nth [where c = "shape1 a"]) (auto simp: wf_nd_def)
  ultimately show ?thesis using assms by (simp add: add.commute)
qed

lemma lead_nth:
  assumes "wf_nd a" "t + 51 < shape0 a" "j < shape1 a"
  shows "rows (adf_lead (adf_walk a)) ! t ! j = (\<Sum>i<t + 52. rows a ! i ! j)"
proof -
  have "length (rows (adf_walk a)) = shape0 a - 50"
    using wf_walk [OF assms(1)] by (simp add: wf_nd_def)
  then have "rows (adf_lead (adf_walk a)) ! t = rows (adf_walk a) ! (Suc t)"
    using assms by (simp add: adf_lead_def slice_from_def)
  then show ?thesis using walk_nth [OF assms(1), of "Suc t" j] assms by (simp add: add.commute)
qed

lemma lag_nth:
  assumes "wf_nd a" "t + 51 < shape0 a" "j < shape1 a"
  shows "rows (adf_lag (adf_walk a)) ! t ! j = (\<Sum>i<t + 51. rows a ! i ! j)"
proof -
  have "length (rows (adf_walk a)) = shape0 a - 50"
    using wf_walk [OF assms(1)] by (simp add: wf_nd_def)
  then have "rows (adf_lag (adf_walk a)) ! t = rows (adf_walk a) ! t"
    using assms by (simp add: adf_lag_def slice_but_last_def nth_butlast)
  then show ?thesis using walk_nth [OF assms(1), of t j] assms by simp
qed

lemma length_foldr_map2:
  "\<forall>r \<in> set rs. length r = length acc \<Longrightarrow> length (foldr (map2 (+)) rs acc) = length (acc :: real list)"
  by (induction rs) auto

lemma length_sum0: "wf_nd a \<Longrightarrow> length (sum0 a) = shape1 a"
  using length_foldr_map2 [of "rows a" "replicate (shape1 a) 0"]
  by (simp add: sum0_def wf_nd_def)

lemma wf_nd_times: "wf_nd a \<Longrightarrow> wf_nd b \<Longrightarrow> shape0 a = shape0 b \<Longrightarrow> shape1 a = shape1 b \<Longrightarrow> wf_nd (nd_times a b)"
proof -
  assume a: "wf_nd a" and b: "wf_nd b" and s: "shape0 a = shape0 b" "shape1 a = shape1 b"
  have "length r = shape1 a" if "r \<in> set (map2 (map2 (*)) (rows a) (rows b))" for r
  proof -
    from that obtain u v where uv: "(u, v) \<in> set (zip (rows a) (rows b))" and r: "r = map2 (*) u v"
      by auto
    from uv have "u \<in> set (rows a)" "v \<in> set (rows b)"
      by (auto dest: set_zip_leftD set_zip_rightD)
    with a b s r show ?thesis by (simp add: wf_nd_def)
  qed
  with a b s show ?thesis by (simp add: wf_nd_def nd_times_def)
qed

lemma wf_nd_square: "wf_nd a \<Longrightarrow> wf_nd (nd_square a)"
  by (auto simp: wf_nd_def nd_square_def)

lemma shape_nd_times [simp]: "shape0 (nd_times a b) = shape0 a" "shape1 (nd_times a b) = shape1 a"
  by (simp_all add: nd_times_def)

lemma shape_nd_square [simp]: "shape0 (nd_square a) = shape0 a" "shape1 (nd_square a) = shape1 a"
  by (simp_all add: nd_square_def)

lemma length_adf_stat:
  "wf_nd lhs \<Longrightarrow> wf_nd rhs \<Longrightarrow> shape0 lhs = shape0 rhs \<Longrightarrow> shape1 lhs = shape1 rhs \<Longrightarrow>
   length (adf_stat lhs rhs) = shape1 lhs"
  by (simp add: adf_stat_def Let_def length_sum0 wf_nd_times wf_nd_square)

lemma adf_regressors_other:
  "trend \<notin> {''c'', ''ct'', ''ctt''} \<Longrightarrow> adf_regressors n trend = Inr None"
  by (simp add: adf_regressors_def)

lemma adf_draw_ok:
  "0 \<le> n + 50 \<Longrightarrow> 0 \<le> b \<Longrightarrow>
   \<exists>y0. adf_draw n b g = Inr (y0, g\<lparr>rs_pos := rs_pos g + nat (n + 50) * nat b\<rparr>) \<and>
        wf_nd y0 \<and> shape0 y0 = nat (n + 50) \<and> shape1 y0 = nat b \<and>
        (\<forall>i<nat (n + 50). \<forall>j<nat b. rows y0 ! i ! j = rs_stream g (rs_pos g + i * nat b + j))"
  by (simp add: adf_draw_def standard_normal_def wf_nd_def)

lemma adf_simulation_other:
  "trend \<notin> {''c'', ''ct'', ''ctt''} \<Longrightarrow>
   adf_simulation gauss pinv n trend b rng glob = adf_simulation gauss pinv' n ''nc'' b rng glob"
  by (simp add: adf_simulation_eq adf_regressors_def adf_residualize_def
        split: sum.split prod.split)

section \<open>C5: what the statistic generator draws\<close>

text \<open>
  C5 as stated says that a matrix of shape \<open>(n - 1 + 50, b)\<close> is drawn. Line 97 draws
  \<^verbatim>\<open>standard_normal((n + 50, b))\<close>: for \<open>n = 2\<close> and \<open>b = 1\<close> the matrix has 52 rows,
  not 51.
\<close>

theorem adf_draw_shape_counterexample:
  "map_sum id (shape0 \<circ> fst) (adf_draw 2 1 zero_glob) = Inr 52 \<and>
   map_sum id (shape0 \<circ> fst) (adf_draw 2 1 zero_glob) \<noteq> Inr (nat (2 - 1 + 50))"
  by (simp add: adf_draw_def standard_normal_def)

text \<open>
  C5, amended: for every \<open>n > 0\<close> and \<open>b \<ge> 0\<close> the generator draws a matrix of shape
  \<open>(n + 50, b)\<close>, filled in row-major order with the next \<open>(n + 50) * b\<close> values of the
  random source; after the cumulative sum along the time axis and the removal of the first 50
  rows the walk has \<open>n\<close> rows, and the left-hand series (the walk from index 1 onward) and
  the lagged right-hand series (the walk without its last row) each have exactly \<open>n - 1\<close>
  rows of \<open>b\<close> entries: row \<open>t\<close> of the left-hand series is the sum of the first
  \<open>t + 52\<close> drawn rows and row \<open>t\<close> of the lagged series the sum of the first \<open>t + 51\<close>.
\<close>

theorem adf_draw_walk_shapes:
  assumes "0 < n" and "0 \<le> b"
  shows "\<exists>y0 g'. adf_draw n b g = Inr (y0, g') \<and>
           shape0 y0 = nat (n + 50) \<and> shape1 y0 = nat b \<and> wf_nd y0 \<and>
           rs_pos g' = rs_pos g + nat (n + 50) * nat b \<and>
           (\<forall>i<nat (n + 50). \<forall>j<nat b. rows y0 ! i ! j = rs_stream g (rs_pos g + i * nat b + j)) \<and>
           shape0 (adf_walk y0) = nat n \<and>
           wf_nd (adf_lead (adf_walk y0)) \<and> wf_nd (adf_lag (adf_walk y0)) \<and>
           shape0 (adf_lead (adf_walk y0)) = nat (n - 1) \<and>
           shape1 (adf_lead (adf_walk y0)) = nat b \<and>
           shape0 (adf_lag (adf_walk y0)) = nat (n - 1) \<and>
           shape1 (adf_lag (adf_walk y0)) = nat b \<and>
           (\<forall>t<nat (n - 1). \<forall>j<nat b.
              rows (adf_lead (adf_walk y0)) ! t ! j = (\<Sum>i<t + 52. rows y0 ! i ! j) \<and>
              rows (adf_lag (adf_walk y0)) ! t ! j = (\<Sum>i<t + 51. rows y0 ! i ! j))"
proof -
  from assms obtain y0 where d: "adf_draw n b g = Inr (y0, g\<lparr>rs_pos := rs_pos g + nat (n + 50) * nat b\<rparr>)"
    and wf: "wf_nd y0" and s0: "shape0 y0 = nat (n + 50)" and s1: "shape1 y0 = nat b"
    and el: "\<forall>i<nat (n + 50). \<forall>j<nat b. rows y0 ! i ! j = rs_stream g (rs_pos g + i * nat b + j)"
    using adf_draw_ok [of n b g] by auto
  have sh: "shape0 (adf_walk y0) = nat n" using s0 assms by simp
  have idx: "rows (adf_lead (adf_walk y0)) ! t ! j = (\<Sum>i<t + 52. rows y0 ! i ! j) \<and>
             rows (adf_lag (adf_walk y0)) ! t ! j = (\<Sum>i<t + 51. rows y0 ! i ! j)"
    if "t < nat (n - 1)" "j < nat b" for t j
    using that lead_nth [OF wf, of t j] lag_nth [OF wf, of t j] s0 s1 assms by simp
  show ?thesis
    using d wf s0 s1 el sh idx assms
    by (simp add: wf_lead wf_lag wf_walk)
qed

theorem adf_draw_walk_shapes_witness:
  "(0::int) < 2 \<and> (0::int) \<le> 1 \<and>
   (\<exists>y0 g'. adf_draw 2 1 zero_glob = Inr (y0, g') \<and> shape0 y0 = 52 \<and> shape1 y0 = 1 \<and>
      rs_pos g' = 52 \<and> shape0 (adf_walk y0) = 2 \<and>
      shape0 (adf_lead (adf_walk y0)) = 1 \<and> shape0 (adf_lag (adf_walk y0)) = 1)"
  using adf_draw_walk_shapes [of 2 1 zero_glob] by (auto simp: zero_glob_def)

section \<open>C9: a trend outside the three detrending cases\<close>

lemma adf_residualize_None [simp]: "adf_residualize pinv None lhs rhs = Inr (lhs, rhs)"
  by (simp add: adf_residualize_def)

lemma adf_simulation_no_regressors:
  assumes "adf_regressors n trend = Inr None"
    and "adf_draw n b (case rng of None \<Rightarrow> seeded gauss 0 | Some r \<Rightarrow> r) = Inr (y0, src')"
  shows "adf_simulation gauss pinv n trend b rng glob =
           Inr (adf_stat (adf_lead (adf_walk y0)) (adf_lag (adf_walk y0)),
                (case rng of None \<Rightarrow> None | Some _ \<Rightarrow> Some src'),
                (case rng of None \<Rightarrow> src' | Some _ \<Rightarrow> glob))"
  using assms by (simp add: adf_simulation_eq Let_def)

text \<open>
  C9: for every trend string other than \<^verbatim>\<open>'c'\<close>, \<^verbatim>\<open>'ct'\<close> and \<^verbatim>\<open>'ctt'\<close>
  (\<^verbatim>\<open>'nc'\<close> and any malformed value), every \<open>n > 0\<close>, \<open>b \<ge> 0\<close> and random source,
  \<open>adf_simulation\<close> does not raise and returns what the call with \<^verbatim>\<open>'nc'\<close> returns: the
  regressor matrix stays \<open>None\<close>, the pseudo-inverse is never consulted (the result is the
  same for any two of them) and the statistics are computed from the series as drawn, without
  residuals; there are \<open>b\<close> of them.
\<close>

theorem adf_simulation_unknown_trend:
  assumes "trend \<notin> {''c'', ''ct'', ''ctt''}" and "0 < n" and "0 \<le> b"
  shows "adf_regressors n trend = Inr None \<and>
         adf_simulation gauss pinv n trend b rng glob =
           adf_simulation gauss pinv' n ''nc'' b rng glob \<and>
         (\<exists>y0 src'.
            adf_draw n b (case rng of None \<Rightarrow> seeded gauss 0 | Some r \<Rightarrow> r) = Inr (y0, src') \<and>
            adf_simulation gauss pinv n trend b rng glob =
              Inr (adf_stat (adf_lead (adf_walk y0)) (adf_lag (adf_walk y0)),
                   (case rng of None \<Rightarrow> None | Some _ \<Rightarrow> Some src'),
                   (case rng of None \<Rightarrow> src' | Some _ \<Rightarrow> glob)) \<and>
            length (adf_stat (adf_lead (adf_walk y0)) (adf_lag (adf_walk y0))) = nat b)"
proof -
  let ?src = "case rng of None \<Rightarrow> seeded gauss 0 | Some r \<Rightarrow> r"
  have z: "adf_regressors n trend = Inr None"
    using assms(1) by (rule adf_regressors_other)
  obtain y0 src' where d: "adf_draw n b ?src = Inr (y0, src')"
    and wf: "wf_nd y0" and s1: "shape1 y0 = nat b"
    using adf_draw_ok [of n b ?src] assms by auto
  have len: "length (adf_stat (adf_lead (adf_walk y0)) (adf_lag (adf_walk y0))) = nat b"
    using wf s1 by (simp add: length_adf_stat wf_lead wf_lag wf_walk)
  have same: "adf_simulation gauss pinv n trend b rng glob =
      adf_simulation gauss pinv' n ''nc'' b rng glob"
    using assms(1) by (rule adf_simulation_other)
  have val: "adf_simulation gauss pinv n trend b rng glob =
      Inr (adf_stat (adf_lead (adf_walk y0)) (adf_lag (adf_walk y0)),
           (case rng of None \<Rightarrow> None | Some _ \<Rightarrow> Some src'),
           (case rng of None \<Rightarrow> src' | Some _ \<Rightarrow> glob))"
    using z d by (rule adf_simulation_no_regressors)
  from z same d val len show ?thesis by blast
qed

theorem adf_simulation_unknown_trend_witness:
  "''linear'' \<notin> {''c'', ''ct'', ''ctt''} \<and> (0::int) < 2 \<and> (0::int) \<le> 1 \<and>
   adf_regressors 2 ''linear'' = Inr None \<and>
   adf_simulation ramp pinv_ones 2 ''linear'' 1 (Some zero_glob) zero_glob =
     adf_simulation ramp pinv_ones 2 ''nc'' 1 (Some zero_glob) zero_glob"
  using adf_simulation_unknown_trend [of "''linear''" 2 1 ramp pinv_ones "Some zero_glob" zero_glob pinv_ones]
  by simp

section \<open>What \<^verbatim>\<open>wrapper\<close> does with its arguments\<close>

lemma py_range_neg_step: "0 \<le> b \<Longrightarrow> bs < 0 \<Longrightarrow> py_range b bs = []"
proof -
  assume b: "0 \<le> b" and bs: "bs < 0"
  have "(b + bs + 1) div bs \<le> 0"
  proof (cases "0 \<le> b + bs + 1")
    case True
    then show ?thesis using bs by (simp add: div_nonneg_neg_le0)
  next
    case False
    then have "b + bs + 1 < 0" "bs < b + bs + 1" using b by auto
    then have "(b + bs + 1) div bs = 0" by (simp add: div_neg_neg_trivial)
    then show ?thesis by simp
  qed
  then show ?thesis using bs by (simp add: py_range_def)
qed

lemma wrapper_negative_draws:
  "0 \<le> s \<Longrightarrow> s < 2 ^ 32 \<Longrightarrow> b < 0 \<Longrightarrow> wrapper M gauss pinv n trend b s glob = Inl ValueError"
  by (simp add: wrapper_eq)

lemma wrapper_zero_length:
  "0 \<le> s \<Longrightarrow> s < 2 ^ 32 \<Longrightarrow> 0 \<le> b \<Longrightarrow>
   wrapper M gauss pinv 0 trend b s glob = Inl DivisionError"
  by (simp add: wrapper_eq)

lemma wrapper_zero_block:
  "0 \<le> s \<Longrightarrow> s < 2 ^ 32 \<Longrightarrow> 0 \<le> b \<Longrightarrow> n \<noteq> 0 \<Longrightarrow> block_size_of M n = 0 \<Longrightarrow>
   wrapper M gauss pinv n trend b s glob = Inl ValueError"
  by (simp add: wrapper_eq)

lemma wrapper_negative_block:
  "0 \<le> s \<Longrightarrow> s < 2 ^ 32 \<Longrightarrow> 0 \<le> b \<Longrightarrow> n \<noteq> 0 \<Longrightarrow> block_size_of M n < 0 \<Longrightarrow>
   wrapper M gauss pinv n trend b s glob = Inr (replicate (nat b) (Fin 0), glob)"
  by (simp add: wrapper_eq py_range_neg_step)

lemma block_size_negative_length:
  "0 < M \<Longrightarrow> n < 0 \<Longrightarrow> block_size_of M n \<le> 0"
proof -
  assume "0 < M" "n < 0"
  then have "2 ^ 20 * M / (8 * real_of_int n) < 0"
    by (simp add: divide_neg_pos divide_pos_neg mult_pos_neg)
  then show ?thesis by (simp add: block_size_of_def py_int_def ceiling_le_iff)
qed

lemma wrapper_body_other:
  "trend \<notin> {''c'', ''ct'', ''ctt''} \<Longrightarrow>
   wrapper_body gauss pinv n trend bs st = wrapper_body gauss pinv' n ''nc'' bs st"
  by (simp add: wrapper_body_def adf_simulation_other [of trend gauss pinv _ _ _ _ pinv'])

lemma wrapper_loop_other:
  "trend \<notin> {''c'', ''ct'', ''ctt''} \<Longrightarrow>
   wrapper_loop gauss pinv n trend bs js st = wrapper_loop gauss pinv' n ''nc'' bs js st"
  by (induction js arbitrary: st)
     (simp_all add: wrapper_body_other [of trend gauss pinv _ _ _ pinv'] split: sum.split)

lemma wrapper_other:
  "trend \<notin> {''c'', ''ct'', ''ctt''} \<Longrightarrow>
   wrapper M gauss pinv n trend b s glob = wrapper M gauss pinv' n ''nc'' b s glob"
  by (cases "seed_rng gauss s")
    (simp_all add: wrapper_def Let_def wrapper_loop_other [of trend gauss pinv _ _ _ _ pinv'])

lemma sum0_no_rows: "rows a = [] \<Longrightarrow> sum0 a = replicate (shape1 a) 0"
  by (simp add: sum0_def)

lemma adf_stat_no_rows:
  "rows lhs = [] \<Longrightarrow> rows rhs = [] \<Longrightarrow> shape0 lhs = 0 \<Longrightarrow>
   adf_stat lhs rhs = replicate (shape1 rhs) NaN"
  by (simp add: adf_stat_def sum0_def nd_times_def nd_square_def np_div_def)

lemma adf_simulation_nonpositive_length:
  assumes "trend \<notin> {''c'', ''ct'', ''ctt''}" and "- 50 \<le> n" and "n \<le> 0" and "0 \<le> b"
  shows "adf_simulation gauss pinv n trend b (Some r) glob =
           Inr (replicate (nat b) NaN, Some (r\<lparr>rs_pos := rs_pos r + nat (n + 50) * nat b\<rparr>), glob)"
proof -
  obtain y0 where d: "adf_draw n b r = Inr (y0, r\<lparr>rs_pos := rs_pos r + nat (n + 50) * nat b\<rparr>)"
    and wf: "wf_nd y0" and s0: "shape0 y0 = nat (n + 50)" and s1: "shape1 y0 = nat b"
    using adf_draw_ok [of n b r] assms by auto
  have "length (rows (cumsum0 y0)) \<le> 50"
    using wf s0 assms by (simp add: cumsum0_def wf_nd_def)
  then have w: "rows (adf_walk y0) = []"
    by (simp add: adf_walk_def slice_from_def)
  have l: "rows (adf_lead (adf_walk y0)) = []" "rows (adf_lag (adf_walk y0)) = []"
    using w by (simp_all add: adf_lead_def adf_lag_def slice_from_def slice_but_last_def)
  have sh: "shape0 (adf_lead (adf_walk y0)) = 0" using s0 assms by simp
  have st: "adf_stat (adf_lead (adf_walk y0)) (adf_lag (adf_walk y0)) = replicate (nat b) NaN"
    using adf_stat_no_rows [OF l sh] s1 by simp
  have z: "adf_regressors n trend = Inr None"
    using assms(1) by (rule adf_regressors_other)
  have "adf_draw n b (case Some r of None \<Rightarrow> seeded gauss 0 | Some r \<Rightarrow> r) =
      Inr (y0, r\<lparr>rs_pos := rs_pos r + nat (n + 50) * nat b\<rparr>)"
    using d by simp
  from adf_simulation_no_regressors [OF z this] st show ?thesis by simp
qed

lemma bs_100_m1: "block_size_of 100 (- 1) = - 13107200"
  by (simp add: block_size_of_def py_int_def)

section \<open>C3: no validation of the arguments\<close>

text \<open>
  C3 as stated says that a non-positive sample length, a negative draw count and a trend
  outside the enumeration are each rejected with an error. The program has no check of its
  arguments: \<^verbatim>\<open>wrapper(-1, 'nc', 3, 0)\<close> returns three zeros (the block size is negative, so
  the loop body never runs), and \<^verbatim>\<open>wrapper(2, 'linear', 1, 0)\<close> returns a statistic.
\<close>

theorem wrapper_unvalidated_counterexample:
  "map_sum id fst (wrapper 100 ramp pinv_ones (- 1) ''nc'' 3 0 zero_glob) = Inr [Fin 0, Fin 0, Fin 0] \<and>
   map_sum id fst (wrapper 100 ramp pinv_ones 2 ''linear'' 1 0 zero_glob) = Inr [Fin (2 / 51)]"
  by code_simp

text \<open>
  C3, amended: neither \<open>wrapper\<close> nor \<open>adf_simulation\<close> validates its arguments; what
  happens to an argument outside its range is what the first library call that meets it does.
  In \<open>wrapper\<close>, in the order of the code: a seed outside \<open>0 .. 2^32 - 1\<close> raises
  \<open>ValueError\<close> (from \<^verbatim>\<open>rng.seed\<close>, line 58), whatever the other arguments. For a seed
  in that range, a negative draw count raises \<open>ValueError\<close> (from \<^verbatim>\<open>zeros(b)\<close>);
  \<open>n = 0\<close> with \<open>b \<ge> 0\<close> raises at the block size of line 62 (\<open>DivisionError\<close>:
  \<^verbatim>\<open>ZeroDivisionError\<close> for a Python \<^verbatim>\<open>int\<close>, \<^verbatim>\<open>OverflowError\<close> for a numpy integer);
  and \<open>n < 0\<close> with \<open>b \<ge> 0\<close> and a negative block size returns \<open>b\<close> zeros without an
  error. For every seed, a trend outside \<^verbatim>\<open>'c'\<close>, \<^verbatim>\<open>'ct'\<close>, \<^verbatim>\<open>'ctt'\<close> is not rejected
  but handled as \<^verbatim>\<open>'nc'\<close>. \<open>adf_simulation\<close> itself, for such a trend, \<open>-50 \<le> n \<le> 0\<close>
  and \<open>b \<ge> 0\<close>, returns \<open>b\<close> values \<^verbatim>\<open>nan\<close> without an error.
\<close>

theorem wrapper_argument_handling:
  "(s < 0 \<or> 2 ^ 32 \<le> s \<longrightarrow> wrapper M gauss pinv n trend b s glob = Inl ValueError) \<and>
   (0 \<le> s \<and> s < 2 ^ 32 \<and> b < 0 \<longrightarrow> wrapper M gauss pinv n trend b s glob = Inl ValueError) \<and>
   (0 \<le> s \<and> s < 2 ^ 32 \<and> 0 \<le> b \<longrightarrow>
      wrapper M gauss pinv 0 trend b s glob = Inl DivisionError) \<and>
   (0 \<le> s \<and> s < 2 ^ 32 \<and> 0 \<le> b \<and> n < 0 \<and> block_size_of M n < 0 \<longrightarrow>
      wrapper M gauss pinv n trend b s glob = Inr (replicate (nat b) (Fin 0), glob)) \<and>
   (trend \<notin> {''c'', ''ct'', ''ctt''} \<longrightarrow>
      wrapper M gauss pinv n trend b s glob = wrapper M gauss pinv n ''nc'' b s glob) \<and>
   (trend \<notin> {''c'', ''ct'', ''ctt''} \<and> - 50 \<le> n \<and> n \<le> 0 \<and> 0 \<le> b \<longrightarrow>
      adf_simulation gauss pinv n trend b (Some r) glob =
        Inr (replicate (nat b) NaN, Some (r\<lparr>rs_pos := rs_pos r + nat (n + 50) * nat b\<rparr>), glob))"
  using wrapper_invalid_seed [where sd = s and M = M and gauss = gauss and pinv = pinv and n = n
      and trend = trend and b = b and glob = glob]
    wrapper_negative_draws [where s = s and M = M and gauss = gauss and pinv = pinv and n = n
      and trend = trend and b = b and glob = glob]
    wrapper_zero_length [where s = s and M = M and gauss = gauss and pinv = pinv
      and trend = trend and b = b and glob = glob]
    wrapper_negative_block [where s = s and M = M and gauss = gauss and pinv = pinv and n = n
      and trend = trend and b = b and glob = glob]
    wrapper_other [where s = s and M = M and gauss = gauss and pinv = pinv and n = n
      and trend = trend and b = b and glob = glob and pinv' = pinv]
    adf_simulation_nonpositive_length [of trend n b gauss pinv r glob]
  by simp

theorem wrapper_argument_handling_witness:
  "wrapper 100 ramp pinv_ones 20 ''c'' 3 (- 1) zero_glob = Inl ValueError \<and>
   wrapper 100 ramp pinv_ones 20 ''c'' 3 (2 ^ 32) zero_glob = Inl ValueError \<and>
   wrapper 100 ramp pinv_ones 20 ''c'' (- 1) 0 zero_glob = Inl ValueError \<and>
   wrapper 100 ramp pinv_ones 0 ''c'' 3 0 zero_glob = Inl DivisionError \<and>
   block_size_of 100 (- 1) < 0 \<and>
   wrapper 100 ramp pinv_ones (- 1) ''c'' 3 0 zero_glob = Inr (replicate 3 (Fin 0), zero_glob) \<and>
   ''linear'' \<notin> {''c'', ''ct'', ''ctt''} \<and>
   wrapper 100 ramp pinv_ones 2 ''linear'' 1 0 zero_glob =
     wrapper 100 ramp pinv_ones 2 ''nc'' 1 0 zero_glob \<and>
   adf_simulation ramp pinv_ones 0 ''linear'' 2 (Some zero_glob) zero_glob =
     Inr (replicate 2 NaN, Some (zero_glob\<lparr>rs_pos := rs_pos zero_glob + 100\<rparr>), zero_glob)"
  using wrapper_argument_handling [of "- 1" 100 ramp pinv_ones 20 "''c''" 3 zero_glob zero_glob]
    wrapper_argument_handling [of "2 ^ 32" 100 ramp pinv_ones 20 "''c''" 3 zero_glob zero_glob]
    wrapper_argument_handling [of 0 100 ramp pinv_ones 20 "''c''" "- 1" zero_glob zero_glob]
    wrapper_argument_handling [of 0 100 ramp pinv_ones "- 1" "''c''" 3 zero_glob zero_glob]
    wrapper_argument_handling [of 0 100 ramp pinv_ones 2 "''linear''" 1 zero_glob zero_glob]
    wrapper_argument_handling [of 0 100 ramp pinv_ones 0 "''linear''" 2 zero_glob zero_glob]
  by (simp add: bs_100_m1)

section \<open>C2: the seeds of the submitted units\<close>

lemma length_seeds [simp]: "length (seeds rint) = EX_NUM"
  by (simp add: seeds_def)

lemma seeds_nth: "r < EX_NUM \<Longrightarrow> seeds rint ! r = rint r"
  by (simp add: seeds_def)

lemma length_submit_args: "length sds = EX_NUM \<Longrightarrow> length (submit_args sds t tr) = EX_NUM"
  by (simp add: submit_args_def)

lemma submit_args_nth:
  "length sds = EX_NUM \<Longrightarrow> r < EX_NUM \<Longrightarrow> submit_args sds t tr ! r = (t, tr, EX_SIZE, sds ! r)"
  by (simp add: submit_args_def)

text \<open>
  C2 as stated says that the seed of every unit of work sits at a position of the master seed
  sequence that is unique to the triple (trend, length index, replication index). The master
  sequence has \<open>EX_NUM\<close> entries and the same list is passed to every \<^verbatim>\<open>map_async\<close> call.
  With every seed labelled by its position (\<open>rint = int\<close>), replication 0 of trend
  \<^verbatim>\<open>'nc'\<close> at length index 0 and replication 0 of trend \<^verbatim>\<open>'c'\<close> at length index 1 both get
  position 0.
\<close>

theorem submit_seed_position_counterexample:
  "snd (snd (snd (submit_args (seeds int) (T ! 0) ''nc'' ! 0))) = 0 \<and>
   snd (snd (snd (submit_args (seeds int) (T ! 1) ''c'' ! 0))) = 0"
  by (simp add: submit_args_nth seeds_nth EX_NUM_def)

text \<open>
  C2, amended: in the Submit step every (trend, sample length) cell submits \<open>EX_NUM\<close> units,
  and the unit of replication \<open>r\<close> gets the sample length, the trend, \<open>EX_SIZE\<close> and the
  seed at position \<open>r\<close> of the master sequence, whatever the trend and the sample length:
  the positions are distinct within a cell and the same for every cell.
\<close>

theorem submit_seed_position:
  "length (submit_args (seeds rint) t tr) = EX_NUM \<and>
   (\<forall>r<EX_NUM. submit_args (seeds rint) t tr ! r = (t, tr, EX_SIZE, rint r))"
  by (simp add: length_submit_args submit_args_nth seeds_nth)

theorem submit_seed_position_witness:
  "(3::nat) < EX_NUM \<and>
   submit_args (seeds int) 2000 ''nc'' ! 3 = (2000, ''nc'', EX_SIZE, 3) \<and>
   submit_args (seeds int) 20 ''ctt'' ! 3 = (20, ''ctt'', EX_SIZE, 3)"
  using submit_seed_position [of int 2000 "''nc''"] submit_seed_position [of int 20 "''ctt''"]
  by (simp add: EX_NUM_def)

section \<open>C7: the guard of \<^verbatim>\<open>clear_cache\<close>\<close>

lemma clear_cache_reads_global:
  "outstanding rc \<noteq> {} \<Longrightarrow> clear_cache rc cl vw = Inl AssertionError"
  by (simp add: clear_cache_def)

text \<open>
  C7: called on the program's client (as line 160 does) while work is outstanding,
  \<^verbatim>\<open>clear_cache\<close> fails its assertion and purges nothing; with no work outstanding it
  returns, and the controller's results, the client's and the view's results, metadata and
  histories are then empty.
\<close>

theorem clear_cache_guard:
  "(outstanding rc \<noteq> {} \<longrightarrow> clear_cache rc rc vw = Inl AssertionError) \<and>
   (outstanding rc = {} \<longrightarrow>
      (\<exists>rc' vw'. clear_cache rc rc vw = Inr (rc', vw') \<and>
         hub_results rc' = Map.empty \<and> c_results rc' = Map.empty \<and> c_metadata rc' = Map.empty \<and>
         c_history rc' = [] \<and> digest_history rc' = {} \<and> outstanding rc' = {} \<and>
         v_results vw' = Map.empty \<and> v_history vw' = []))"
  by (simp add: clear_cache_def)

theorem clear_cache_guard_witness:
  "outstanding busy_client \<noteq> {} \<and> clear_cache busy_client busy_client idle_view = Inl AssertionError \<and>
   outstanding (idle_client\<lparr>c_history := [1, 2]\<rparr>) = {} \<and>
   (\<exists>rc' vw'. clear_cache (idle_client\<lparr>c_history := [1, 2]\<rparr>) (idle_client\<lparr>c_history := [1, 2]\<rparr>)
                  (idle_view\<lparr>v_history := [1, 2]\<rparr>) = Inr (rc', vw') \<and>
       c_history rc' = [] \<and> v_history vw' = [])"
  using clear_cache_guard [of busy_client idle_view]
    clear_cache_guard [of "idle_client\<lparr>c_history := [1, 2]\<rparr>" "idle_view\<lparr>v_history := [1, 2]\<rparr>"]
  by (auto simp: busy_client_def idle_client_def)

section \<open>The statistic, column by column\<close>

lemma foldr_map2_nth:
  "\<forall>r \<in> set rs. length r = length acc \<Longrightarrow> j < length acc \<Longrightarrow>
   foldr (map2 (+)) rs acc ! j = (\<Sum>r\<leftarrow>rs. r ! j) + (acc ! j :: real)"
proof (induction rs)
  case Nil
  then show ?case by simp
next
  case (Cons r rs)
  have len: "length (foldr (map2 (+)) rs acc) = length acc"
    using Cons.prems by (simp add: length_foldr_map2)
  show ?case using Cons len by simp
qed

lemma sum0_nth:
  assumes "wf_nd a" and "j < shape1 a"
  shows "sum0 a ! j = (\<Sum>t<shape0 a. rows a ! t ! j)"
proof -
  have "sum0 a ! j = (\<Sum>r\<leftarrow>rows a. r ! j) + replicate (shape1 a) 0 ! j"
    unfolding sum0_def using assms by (intro foldr_map2_nth) (simp_all add: wf_nd_def)
  also have "\<dots> = (\<Sum>r\<leftarrow>rows a. r ! j)" using assms by simp
  also have "\<dots> = (\<Sum>t<length (rows a). rows a ! t ! j)"
    by (simp add: sum_list_sum_nth atLeast0LessThan)
  finally show ?thesis using assms by (simp add: wf_nd_def)
qed

lemma nd_times_nth:
  assumes "wf_nd a" "wf_nd b" "shape0 a = shape0 b" "shape1 a = shape1 b"
    and "t < shape0 a" "j < shape1 a"
  shows "rows (nd_times a b) ! t ! j = rows a ! t ! j * rows b ! t ! j"
proof -
  have "length (rows a ! t) = shape1 a" "length (rows b ! t) = shape1 a"
    using assms by (simp_all add: wf_nd_def)
  then show ?thesis using assms by (simp add: nd_times_def wf_nd_def)
qed

lemma nd_square_nth:
  assumes "wf_nd a" "t < shape0 a" "j < shape1 a"
  shows "rows (nd_square a) ! t ! j = (rows a ! t ! j) ^ 2"
proof -
  have "length (rows a ! t) = shape1 a" using assms by (simp add: wf_nd_def)
  then show ?thesis using assms by (simp add: nd_square_def wf_nd_def)
qed

lemma adf_stat_nth:
  assumes "wf_nd lhs" "wf_nd rhs" "shape0 lhs = shape0 rhs" "shape1 lhs = shape1 rhs"
    and "j < shape1 lhs"
  shows "adf_stat lhs rhs ! j =
           np_mul (real (shape0 lhs))
             (np_sub (np_div (\<Sum>t<shape0 lhs. rows rhs ! t ! j * rows lhs ! t ! j)
                             (\<Sum>t<shape0 lhs. (rows rhs ! t ! j) ^ 2)) 1)"
proof -
  have wt: "wf_nd (nd_times rhs lhs)" and ws: "wf_nd (nd_square rhs)"
    using assms by (simp_all add: wf_nd_times wf_nd_square)
  have xpy: "sum0 (nd_times rhs lhs) ! j = (\<Sum>t<shape0 lhs. rows rhs ! t ! j * rows lhs ! t ! j)"
    using sum0_nth [OF wt, of j] assms by (simp add: nd_times_nth)
  have xpx: "sum0 (nd_square rhs) ! j = (\<Sum>t<shape0 lhs. (rows rhs ! t ! j) ^ 2)"
    using sum0_nth [OF ws, of j] assms by (simp add: nd_square_nth)
  have len: "length (sum0 (nd_times rhs lhs)) = shape1 lhs" "length (sum0 (nd_square rhs)) = shape1 lhs"
    using wt ws assms by (simp_all add: length_sum0)
  show ?thesis
    using assms(5) len xpy xpx by (simp add: adf_stat_def Let_def)
qed

lemma dot_shape:
  "dot a b = Inr c \<Longrightarrow> wf_nd a \<Longrightarrow> wf_nd c \<and> shape0 c = shape0 a \<and> shape1 c = shape1 b"
  by (auto simp: dot_def wf_nd_def split: if_splits)

lemma dot_ok: "shape1 a = shape0 b \<Longrightarrow> \<exists>c. dot a b = Inr c"
  by (simp add: dot_def)

lemma wf_nd_minus:
  "wf_nd a \<Longrightarrow> wf_nd b \<Longrightarrow> shape0 a = shape0 b \<Longrightarrow> shape1 a = shape1 b \<Longrightarrow>
   wf_nd (nd_minus a b) \<and> shape0 (nd_minus a b) = shape0 a \<and> shape1 (nd_minus a b) = shape1 a"
proof -
  assume a: "wf_nd a" and b: "wf_nd b" and s: "shape0 a = shape0 b" "shape1 a = shape1 b"
  have "length r = shape1 a" if "r \<in> set (map2 (map2 (-)) (rows a) (rows b))" for r
  proof -
    from that obtain u v where uv: "(u, v) \<in> set (zip (rows a) (rows b))" and r: "r = map2 (-) u v"
      by auto
    from uv have "u \<in> set (rows a)" "v \<in> set (rows b)"
      by (auto dest: set_zip_leftD set_zip_rightD)
    with a b s r show ?thesis by (simp add: wf_nd_def)
  qed
  with a b s show ?thesis by (simp add: wf_nd_def nd_minus_def)
qed

lemma residual_ok:
  assumes "wf_nd z" "pinv_shaped pinv z" "wf_nd x" "shape0 x = shape0 z"
  shows "\<exists>x'. residual z (pinv z) x = Inr x' \<and> wf_nd x' \<and> shape0 x' = shape0 x \<and> shape1 x' = shape1 x"
proof -
  from assms obtain beta where b: "dot (pinv z) x = Inr beta"
    using dot_ok [of "pinv z" x] by (auto simp: pinv_shaped_def)
  have bs: "wf_nd beta" "shape0 beta = shape1 z" "shape1 beta = shape1 x"
    using dot_shape [OF b] assms by (simp_all add: pinv_shaped_def)
  from bs obtain fit where f: "dot z beta = Inr fit"
    using dot_ok [of z beta] by auto
  have fs: "wf_nd fit" "shape0 fit = shape0 z" "shape1 fit = shape1 x"
    using dot_shape [OF f] assms bs by simp_all
  show ?thesis
    using b f wf_nd_minus [of x fit] assms fs by (simp add: residual_def)
qed

lemma adf_residualize_ok:
  assumes "\<forall>zm. z = Some zm \<longrightarrow> wf_nd zm \<and> pinv_shaped pinv zm \<and> shape0 zm = shape0 lhs"
    and "wf_nd lhs" "wf_nd rhs" "shape0 rhs = shape0 lhs"
  shows "\<exists>lhs' rhs'. adf_residualize pinv z lhs rhs = Inr (lhs', rhs') \<and>
           wf_nd lhs' \<and> wf_nd rhs' \<and> shape0 lhs' = shape0 lhs \<and> shape1 lhs' = shape1 lhs \<and>
           shape0 rhs' = shape0 lhs \<and> shape1 rhs' = shape1 rhs"
proof (cases z)
  case None
  then show ?thesis using assms by simp
next
  case (Some zm)
  with assms have zm: "wf_nd zm" "pinv_shaped pinv zm" "shape0 zm = shape0 lhs" by auto
  obtain lhs' where l: "residual zm (pinv zm) lhs = Inr lhs'" "wf_nd lhs'"
      "shape0 lhs' = shape0 lhs" "shape1 lhs' = shape1 lhs"
    using residual_ok [OF zm(1,2) assms(2)] zm(3) by auto
  obtain rhs' where r: "residual zm (pinv zm) rhs = Inr rhs'" "wf_nd rhs'"
      "shape0 rhs' = shape0 rhs" "shape1 rhs' = shape1 rhs"
    using residual_ok [OF zm(1,2) assms(3)] zm(3) assms(4) by auto
  show ?thesis using Some l r assms(4) by (simp add: adf_residualize_def Let_def)
qed

lemma wf_transpose_nd: "wf_nd a \<Longrightarrow> wf_nd (transpose_nd a)"
  by (auto simp: wf_nd_def transpose_nd_def)

lemma length_arange [simp]: "length (arange lo hi) = nat (hi - lo)"
  by (simp add: arange_def)

lemma adf_regressors_ok:
  assumes "0 < n"
  shows "\<exists>z. adf_regressors n trend = Inr z \<and>
           (\<forall>zm. z = Some zm \<longrightarrow> wf_nd zm \<and> shape0 zm = nat (n - 1))"
proof -
  have c: "\<exists>zm. ones2 (n - 1) 1 = Inr zm \<and> wf_nd zm \<and> shape0 zm = nat (n - 1)"
    using assms by (simp add: ones2_def wf_nd_def)
  have ct: "\<exists>v. vstack [replicate (nat (n - 1)) 1, arange 1 (n - 1 + 1)] = Inr v \<and> wf_nd v \<and>
      shape1 v = nat (n - 1)"
    using assms by (simp add: vstack_def wf_nd_def)
  have ctt: "\<exists>v. vstack [replicate (nat (n - 1)) 1, arange 1 (n - 1 + 1),
        map (\<lambda>x. x ^ 2) (arange 1 (n - 1 + 1))] = Inr v \<and> wf_nd v \<and> shape1 v = nat (n - 1)"
    using assms by (simp add: vstack_def wf_nd_def)
  have o1: "ones1 (n - 1) = Inr (replicate (nat (n - 1)) 1)"
    using assms by (simp add: ones1_def)
  show ?thesis
  proof (cases "trend = ''c''")
    case True
    then show ?thesis using c by (auto simp: adf_regressors_def)
  next
    case nc: False
    show ?thesis
    proof (cases "trend = ''ct''")
      case True
      from ct obtain v where "vstack [replicate (nat (n - 1)) 1, arange 1 (n - 1 + 1)] = Inr v"
        "wf_nd v" "shape1 v = nat (n - 1)" by auto
      then show ?thesis using True o1 wf_transpose_nd [of v]
        by (simp add: adf_regressors_def transpose_nd_def Let_def)
    next
      case nct: False
      show ?thesis
      proof (cases "trend = ''ctt''")
        case True
        from ctt obtain v where "vstack [replicate (nat (n - 1)) 1, arange 1 (n - 1 + 1),
          map (\<lambda>x. x ^ 2) (arange 1 (n - 1 + 1))] = Inr v" "wf_nd v" "shape1 v = nat (n - 1)" by auto
        then show ?thesis using True o1 wf_transpose_nd [of v]
          by (simp add: adf_regressors_def transpose_nd_def Let_def)
      next
        case False
        then show ?thesis using nc nct by (simp add: adf_regressors_def)
      qed
    qed
  qed
qed

section \<open>C4: the statistic of every column\<close>

text \<open>
  C4: for every \<open>n > 0\<close>, \<open>b \<ge> 0\<close>, trend and random source (the argument \<open>rng\<close> or
  the reseeded module-level generator), \<open>adf_simulation\<close> returns \<open>b\<close> statistics, and the
  statistic of column \<open>j\<close> is \<open>nobs * (cov / var - 1)\<close>, where \<open>cov\<close> is the sum over the
  time axis of the products of the lagged and the left-hand series, \<open>var\<close> the sum of the
  squares of the lagged series (neither mean-centred), both series residualized on the
  regressors when there are any, and \<open>nobs = n - 1\<close> is the number of rows of the
  residualized series. The division is numpy's: a zero \<open>var\<close> gives \<^verbatim>\<open>nan\<close> or an infinity.
  For a trend with regressors the theorem assumes that the pseudo-inverse has the transposed
  shape of the regressor matrix.
\<close>

theorem adf_simulation_statistic:
  assumes "0 < n" and "0 \<le> b"
    and "\<forall>zm. adf_regressors n trend = Inr (Some zm) \<longrightarrow> pinv_shaped pinv zm"
  shows "\<exists>z y0 src' lhs rhs stat rng' glob'.
           adf_regressors n trend = Inr z \<and>
           adf_draw n b (case rng of None \<Rightarrow> seeded gauss 0 | Some r \<Rightarrow> r) = Inr (y0, src') \<and>
           adf_residualize pinv z (adf_lead (adf_walk y0)) (adf_lag (adf_walk y0)) = Inr (lhs, rhs) \<and>
           adf_simulation gauss pinv n trend b rng glob = Inr (stat, rng', glob') \<and>
           shape0 lhs = nat (n - 1) \<and> shape0 rhs = nat (n - 1) \<and>
           shape1 lhs = nat b \<and> shape1 rhs = nat b \<and>
           length stat = nat b \<and>
           (\<forall>j<nat b.
              stat ! j =
                np_mul (real (nat (n - 1)))
                  (np_sub (np_div (\<Sum>t<nat (n - 1). rows rhs ! t ! j * rows lhs ! t ! j)
                                  (\<Sum>t<nat (n - 1). (rows rhs ! t ! j) ^ 2)) 1))"
proof -
  let ?src = "case rng of None \<Rightarrow> seeded gauss 0 | Some r \<Rightarrow> r"
  obtain z where z: "adf_regressors n trend = Inr z"
    and zwf: "\<forall>zm. z = Some zm \<longrightarrow> wf_nd zm \<and> shape0 zm = nat (n - 1)"
    using adf_regressors_ok [OF assms(1), of trend] by auto
  obtain y0 src' where d: "adf_draw n b ?src = Inr (y0, src')"
    and wf: "wf_nd y0" and s0: "shape0 y0 = nat (n + 50)" and s1: "shape1 y0 = nat b"
    using adf_draw_ok [of n b ?src] assms by auto
  let ?lead = "adf_lead (adf_walk y0)" and ?lag = "adf_lag (adf_walk y0)"
  have wl: "wf_nd ?lead" "wf_nd ?lag" using wf by (simp_all add: wf_lead wf_lag wf_walk)
  have sl: "shape0 ?lead = nat (n - 1)" "shape0 ?lag = nat (n - 1)"
    "shape1 ?lead = nat b" "shape1 ?lag = nat b"
    using s0 s1 assms by simp_all
  have pre: "\<forall>zm. z = Some zm \<longrightarrow> wf_nd zm \<and> pinv_shaped pinv zm \<and> shape0 zm = shape0 ?lead"
    using zwf z assms(3) sl by auto
  obtain lhs rhs where r: "adf_residualize pinv z ?lead ?lag = Inr (lhs, rhs)"
    and wr: "wf_nd lhs" "wf_nd rhs"
    and sr: "shape0 lhs = shape0 ?lead" "shape1 lhs = shape1 ?lead"
            "shape0 rhs = shape0 ?lead" "shape1 rhs = shape1 ?lag"
    using adf_residualize_ok [OF pre wl] sl by auto
  have sim: "adf_simulation gauss pinv n trend b rng glob =
      Inr (adf_stat lhs rhs, (case rng of None \<Rightarrow> None | Some _ \<Rightarrow> Some src'),
           (case rng of None \<Rightarrow> src' | Some _ \<Rightarrow> glob))"
    using z d r by (simp add: adf_simulation_eq Let_def)
  have len: "length (adf_stat lhs rhs) = nat b"
    using length_adf_stat [OF wr] sr sl by simp
  have col: "adf_stat lhs rhs ! j =
      np_mul (real (nat (n - 1)))
        (np_sub (np_div (\<Sum>t<nat (n - 1). rows rhs ! t ! j * rows lhs ! t ! j)
                        (\<Sum>t<nat (n - 1). (rows rhs ! t ! j) ^ 2)) 1)"
    if "j < nat b" for j
    using adf_stat_nth [OF wr, of j] sr sl that by simp
  from z d r sim len col sr sl show ?thesis by auto
qed

theorem adf_simulation_statistic_witness:
  "(0::int) < 3 \<and> (0::int) \<le> 1 \<and>
   pinv_shaped pinv_ones \<lparr>shape0 = 2, shape1 = 1, rows = [[1], [1]]\<rparr> \<and>
   adf_regressors 3 ''c'' = Inr (Some \<lparr>shape0 = 2, shape1 = 1, rows = [[1], [1]]\<rparr>) \<and>
   (\<exists>z y0 src' lhs rhs stat rng' glob'.
      adf_regressors 3 ''c'' = Inr z \<and>
      adf_draw 3 1 (seeded ramp 0) = Inr (y0, src') \<and>
      adf_residualize pinv_ones z (adf_lead (adf_walk y0)) (adf_lag (adf_walk y0)) = Inr (lhs, rhs) \<and>
      adf_simulation ramp pinv_ones 3 ''c'' 1 (Some (seeded ramp 0)) zero_glob = Inr (stat, rng', glob') \<and>
      shape0 lhs = 2 \<and> shape0 rhs = 2 \<and> shape1 lhs = 1 \<and> shape1 rhs = 1 \<and>
      length stat = 1 \<and>
      stat ! 0 = np_mul 2 (np_sub (np_div (\<Sum>t<2. rows rhs ! t ! 0 * rows lhs ! t ! 0)
                                          (\<Sum>t<2. (rows rhs ! t ! 0) ^ 2)) 1))"
proof -
  have z: "adf_regressors 3 ''c'' = Inr (Some \<lparr>shape0 = 2, shape1 = 1, rows = [[1], [1]]\<rparr>)"
    by (simp add: adf_regressors_def ones2_def numeral_2_eq_2)
  have p: "pinv_shaped pinv_ones \<lparr>shape0 = 2, shape1 = 1, rows = [[1], [1]]\<rparr>"
    by (simp add: pinv_shaped_def pinv_ones_def wf_nd_def)
  have h: "\<forall>zm. adf_regressors 3 ''c'' = Inr (Some zm) \<longrightarrow> pinv_shaped pinv_ones zm"
    using z p by simp
  have n0: "(0::int) < 3" and b0: "(0::int) \<le> 1" by simp_all
  note inst = adf_simulation_statistic [where n = 3 and b = 1 and trend = "''c''" and pinv = pinv_ones
        and rng = "Some (seeded ramp 0)" and gauss = ramp and glob = zero_glob, OF n0 b0 h]
  have "\<exists>z y0 src' lhs rhs stat rng' glob'.
      adf_regressors 3 ''c'' = Inr z \<and>
      adf_draw 3 1 (seeded ramp 0) = Inr (y0, src') \<and>
      adf_residualize pinv_ones z (adf_lead (adf_walk y0)) (adf_lag (adf_walk y0)) = Inr (lhs, rhs) \<and>
      adf_simulation ramp pinv_ones 3 ''c'' 1 (Some (seeded ramp 0)) zero_glob = Inr (stat, rng', glob') \<and>
      shape0 lhs = 2 \<and> shape0 rhs = 2 \<and> shape1 lhs = 1 \<and> shape1 rhs = 1 \<and>
      length stat = 1 \<and>
      stat ! 0 = np_mul 2 (np_sub (np_div (\<Sum>t<2. rows rhs ! t ! 0 * rows lhs ! t ! 0)
                                          (\<Sum>t<2. (rows rhs ! t ! 0) ^ 2)) 1)"
    using inst by (simp del: sum.lessThan_Suc)
  with z p show ?thesis by simp
qed

section \<open>The blocks of \<^verbatim>\<open>wrapper\<close>\<close>

lemma adf_simulation_Some:
  assumes "0 < n" and "0 \<le> c"
    and "\<forall>zm. adf_regressors n trend = Inr (Some zm) \<longrightarrow> pinv_shaped pinv zm"
  shows "\<exists>stat. adf_simulation gauss pinv n trend c (Some r) g =
             Inr (stat, Some (r\<lparr>rs_pos := rs_pos r + nat (n + 50) * nat c\<rparr>), g) \<and>
           length stat = nat c"
proof -
  obtain z where z: "adf_regressors n trend = Inr z"
    and zwf: "\<forall>zm. z = Some zm \<longrightarrow> wf_nd zm \<and> shape0 zm = nat (n - 1)"
    using adf_regressors_ok [OF assms(1), of trend] by auto
  obtain y0 where d: "adf_draw n c r = Inr (y0, r\<lparr>rs_pos := rs_pos r + nat (n + 50) * nat c\<rparr>)"
    and wf: "wf_nd y0" and s0: "shape0 y0 = nat (n + 50)" and s1: "shape1 y0 = nat c"
    using adf_draw_ok [of n c r] assms by auto
  let ?lead = "adf_lead (adf_walk y0)" and ?lag = "adf_lag (adf_walk y0)"
  have wl: "wf_nd ?lead" "wf_nd ?lag" using wf by (simp_all add: wf_lead wf_lag wf_walk)
  have sl: "shape0 ?lead = nat (n - 1)" "shape0 ?lag = nat (n - 1)"
    "shape1 ?lead = nat c" "shape1 ?lag = nat c"
    using s0 s1 assms by simp_all
  have pre: "\<forall>zm. z = Some zm \<longrightarrow> wf_nd zm \<and> pinv_shaped pinv zm \<and> shape0 zm = shape0 ?lead"
    using zwf z assms(3) sl by auto
  obtain lhs rhs where r: "adf_residualize pinv z ?lead ?lag = Inr (lhs, rhs)"
    and wr: "wf_nd lhs" "wf_nd rhs"
    and sr: "shape0 lhs = shape0 ?lead" "shape1 lhs = shape1 ?lead"
            "shape0 rhs = shape0 ?lead" "shape1 rhs = shape1 ?lag"
    using adf_residualize_ok [OF pre wl] sl by auto
  have sim: "adf_simulation gauss pinv n trend c (Some r) g =
      Inr (adf_stat lhs rhs, Some (r\<lparr>rs_pos := rs_pos r + nat (n + 50) * nat c\<rparr>), g)"
    using z d r by (simp add: adf_simulation_eq Let_def)
  have len: "length (adf_stat lhs rhs) = nat c"
    using length_adf_stat [OF wr] sr sl by simp
  from sim len show ?thesis by simp
qed

lemma set_slice_block:
  assumes "0 \<le> f" and "0 \<le> c" and "nat (f + c) \<le> length xs" and "length v = nat c"
  shows "set_slice xs f (f + c) v = Inr (take (nat f) xs @ v @ drop (nat (f + c)) xs)"
proof -
  have lo: "clip_index (length xs) f = nat f"
    using assms by (simp add: clip_index_def nat_add_distrib)
  have hi: "clip_index (length xs) (f + c) = nat (f + c)"
    using assms by (simp add: clip_index_def)
  have "max (nat f) (nat (f + c)) - nat f = nat c"
    using assms by (simp add: nat_add_distrib)
  moreover have "max (nat f) (nat (f + c)) = nat (f + c)"
    using assms by (simp add: nat_add_distrib)
  ultimately show ?thesis using assms lo hi by (simp add: set_slice_def Let_def)
qed

lemma wrapper_body_block:
  assumes "0 < n" and "0 < bs"
    and "\<forall>zm. adf_regressors n trend = Inr (Some zm) \<longrightarrow> pinv_shaped pinv zm"
    and "0 \<le> w_finished s" and "0 < w_remaining s"
    and "length (w_res s) = nat (w_finished s + w_remaining s)"
  shows "\<exists>stat.
           adf_simulation gauss pinv n trend (min bs (w_remaining s)) (Some (w_rng s)) (w_glob s) =
             Inr (stat, Some ((w_rng s)\<lparr>rs_pos := rs_pos (w_rng s) + nat (n + 50) * nat (min bs (w_remaining s))\<rparr>),
                  w_glob s) \<and>
           length stat = nat (min bs (w_remaining s)) \<and>
           wrapper_body gauss pinv n trend bs s =
             Inr (s\<lparr>w_res := take (nat (w_finished s)) (w_res s) @ stat @
                               drop (nat (w_finished s + min bs (w_remaining s))) (w_res s),
                    w_rng := (w_rng s)\<lparr>rs_pos := rs_pos (w_rng s) + nat (n + 50) * nat (min bs (w_remaining s))\<rparr>,
                    w_glob := w_glob s,
                    w_finished := w_finished s + min bs (w_remaining s),
                    w_remaining := w_remaining s - min bs (w_remaining s)\<rparr>)"
proof -
  let ?c = "min bs (w_remaining s)"
  have c: "(if bs < w_remaining s then bs else w_remaining s) = ?c" by simp
  have c0: "0 \<le> ?c" using assms by simp
  obtain stat where a: "adf_simulation gauss pinv n trend ?c (Some (w_rng s)) (w_glob s) =
      Inr (stat, Some ((w_rng s)\<lparr>rs_pos := rs_pos (w_rng s) + nat (n + 50) * nat ?c\<rparr>), w_glob s)"
    and l: "length stat = nat ?c"
    using adf_simulation_Some [OF assms(1) c0 assms(3), of gauss "w_rng s" "w_glob s"] by auto
  have fit: "nat (w_finished s + ?c) \<le> length (w_res s)" using assms by simp
  have sl: "set_slice (w_res s) (w_finished s) (w_finished s + ?c) stat =
      Inr (take (nat (w_finished s)) (w_res s) @ stat @ drop (nat (w_finished s + ?c)) (w_res s))"
    using set_slice_block [OF assms(4) c0 fit l] .
  have "wrapper_body gauss pinv n trend bs s =
      Inr (s\<lparr>w_res := take (nat (w_finished s)) (w_res s) @ stat @
                        drop (nat (w_finished s + ?c)) (w_res s),
             w_rng := (w_rng s)\<lparr>rs_pos := rs_pos (w_rng s) + nat (n + 50) * nat ?c\<rparr>,
             w_glob := w_glob s,
             w_finished := w_finished s + ?c,
             w_remaining := w_remaining s - ?c\<rparr>)"
    unfolding wrapper_body_def Let_def c using a sl by simp
  with a l show ?thesis by blast
qed

lemma blocks_none: "0 < bs \<Longrightarrow> 0 \<le> rem \<Longrightarrow> nat ((rem + bs - 1) div bs) = 0 \<Longrightarrow> rem = (0::int)"
proof -
  assume bs: "0 < bs" and r: "0 \<le> rem" and z: "nat ((rem + bs - 1) div bs) = 0"
  have "\<not> 0 < (rem + bs - 1) div bs" using z by simp
  then have "\<not> bs \<le> rem + bs - 1" using bs by (simp add: pos_imp_zdiv_pos_iff)
  then show ?thesis using r by simp
qed

lemma blocks_some: "0 < bs \<Longrightarrow> 0 \<le> rem \<Longrightarrow> nat ((rem + bs - 1) div bs) = Suc k \<Longrightarrow> (0::int) < rem"
proof -
  assume bs: "0 < bs" and r: "0 \<le> rem" and z: "nat ((rem + bs - 1) div bs) = Suc k"
  have "0 < (rem + bs - 1) div bs" using z by simp
  then have "bs \<le> rem + bs - 1" using bs by (simp add: pos_imp_zdiv_pos_iff)
  then show ?thesis by simp
qed

lemma blocks_step:
  assumes "0 < bs" and "(0::int) < rem"
  shows "nat ((rem - min bs rem + bs - 1) div bs) = nat ((rem + bs - 1) div bs) - 1"
proof (cases "bs \<le> rem")
  case True
  have "(rem + bs - 1) div bs = (rem - 1 + 1 * bs) div bs" by (simp add: algebra_simps)
  also have "\<dots> = (rem - 1) div bs + 1" using assms by simp
  finally have "(rem + bs - 1) div bs = (rem - 1) div bs + 1" .
  moreover have "0 \<le> (rem - 1) div bs" using assms by (simp add: pos_imp_zdiv_nonneg_iff)
  ultimately show ?thesis using True by (simp add: min_def)
next
  case False
  then have m: "min bs rem = rem" by simp
  have a: "(bs - 1) div bs = 0" using assms by (simp add: div_pos_pos_trivial)
  have "(rem + bs - 1) div bs = (rem - 1 + 1 * bs) div bs" by (simp add: algebra_simps)
  also have "\<dots> = (rem - 1) div bs + 1" using assms by simp
  also have "(rem - 1) div bs = 0" using assms False by (simp add: div_pos_pos_trivial)
  finally show ?thesis using m a by simp
qed

lemma rng_pos_same [simp]: "r\<lparr>rs_pos := rs_pos r\<rparr> = (r::rng_state)"
  by simp

lemma wrapper_loop_blocks:
  assumes n: "0 < n" and bs: "0 < bs"
    and pv: "\<forall>zm. adf_regressors n trend = Inr (Some zm) \<longrightarrow> pinv_shaped pinv zm"
  shows "0 \<le> w_finished s \<Longrightarrow> 0 \<le> w_remaining s \<Longrightarrow>
         length (w_res s) = nat (w_finished s + w_remaining s) \<Longrightarrow>
         length js = nat ((w_remaining s + bs - 1) div bs) \<Longrightarrow>
         \<exists>s'. wrapper_loop gauss pinv n trend bs js s = Inr s' \<and>
              w_glob s' = w_glob s \<and>
              length (w_res s') = length (w_res s) \<and>
              take (nat (w_finished s)) (w_res s') = take (nat (w_finished s)) (w_res s) \<and>
              w_rng s' = (w_rng s)\<lparr>rs_pos := rs_pos (w_rng s) + nat (n + 50) * nat (w_remaining s)\<rparr> \<and>
              (\<forall>k<length js. \<exists>stat r'.
                 adf_simulation gauss pinv n trend (min bs (w_remaining s - int k * bs))
                   (Some ((w_rng s)\<lparr>rs_pos := rs_pos (w_rng s) + nat (n + 50) * (k * nat bs)\<rparr>))
                   (w_glob s) = Inr (stat, Some r', w_glob s) \<and>
                 length stat = nat (min bs (w_remaining s - int k * bs)) \<and>
                 take (length stat) (drop (nat (w_finished s) + k * nat bs) (w_res s')) = stat)"
proof (induction js arbitrary: s)
  case Nil
  then have "w_remaining s = 0" using blocks_none [OF bs, of "w_remaining s"] by simp
  then show ?case by simp
next
  case (Cons j js)
  let ?f = "w_finished s" and ?rem = "w_remaining s" and ?res = "w_res s"
  let ?c = "min bs ?rem"
  have rem: "0 < ?rem"
    using blocks_some [OF bs Cons.prems(2), of "length js"] Cons.prems(4) by simp
  have c: "0 < ?c" "?c \<le> ?rem" using rem bs by simp_all
  obtain stat0 where a0: "adf_simulation gauss pinv n trend ?c (Some (w_rng s)) (w_glob s) =
        Inr (stat0, Some ((w_rng s)\<lparr>rs_pos := rs_pos (w_rng s) + nat (n + 50) * nat ?c\<rparr>), w_glob s)"
    and l0: "length stat0 = nat ?c"
    and b0: "wrapper_body gauss pinv n trend bs s =
        Inr (s\<lparr>w_res := take (nat ?f) ?res @ stat0 @ drop (nat (?f + ?c)) ?res,
               w_rng := (w_rng s)\<lparr>rs_pos := rs_pos (w_rng s) + nat (n + 50) * nat ?c\<rparr>,
               w_glob := w_glob s,
               w_finished := ?f + ?c,
               w_remaining := ?rem - ?c\<rparr>)"
    using wrapper_body_block [OF n bs pv Cons.prems(1) rem Cons.prems(3), of gauss] by blast
  define s1 where "s1 = s\<lparr>w_res := take (nat ?f) ?res @ stat0 @ drop (nat (?f + ?c)) ?res,
               w_rng := (w_rng s)\<lparr>rs_pos := rs_pos (w_rng s) + nat (n + 50) * nat ?c\<rparr>,
               w_glob := w_glob s,
               w_finished := ?f + ?c,
               w_remaining := ?rem - ?c\<rparr>"
  have s1: "w_finished s1 = ?f + ?c" "w_remaining s1 = ?rem - ?c" "w_glob s1 = w_glob s"
    "w_rng s1 = (w_rng s)\<lparr>rs_pos := rs_pos (w_rng s) + nat (n + 50) * nat ?c\<rparr>"
    "w_res s1 = take (nat ?f) ?res @ stat0 @ drop (nat (?f + ?c)) ?res"
    by (simp_all add: s1_def)
  have lenres: "length ?res = nat ?f + nat ?rem"
    using Cons.prems by (simp add: nat_add_distrib)
  have fc: "nat (?f + ?c) = nat ?f + nat ?c"
    using Cons.prems c by (simp add: nat_add_distrib)
  have cr: "nat ?c \<le> nat ?rem" using c by simp
  have len1: "length (w_res s1) = length ?res"
    using lenres fc l0 cr by (simp add: s1)
  have p1: "0 \<le> w_finished s1" "0 \<le> w_remaining s1"
    using Cons.prems c by (simp_all add: s1)
  have "w_finished s1 + w_remaining s1 = ?f + ?rem" by (simp add: s1)
  then have p3: "length (w_res s1) = nat (w_finished s1 + w_remaining s1)"
    using len1 Cons.prems(3) by simp
  have p4: "length js = nat ((w_remaining s1 + bs - 1) div bs)"
    using blocks_step [OF bs rem] Cons.prems(4) by (simp add: s1)
  from Cons.IH [OF p1 p3 p4] obtain s' where
    run: "wrapper_loop gauss pinv n trend bs js s1 = Inr s'"
    and g: "w_glob s' = w_glob s1"
    and ln: "length (w_res s') = length (w_res s1)"
    and pre: "take (nat (w_finished s1)) (w_res s') = take (nat (w_finished s1)) (w_res s1)"
    and rg: "w_rng s' = (w_rng s1)\<lparr>rs_pos := rs_pos (w_rng s1) + nat (n + 50) * nat (w_remaining s1)\<rparr>"
    and blk: "\<forall>k<length js. \<exists>stat r'.
                 adf_simulation gauss pinv n trend (min bs (w_remaining s1 - int k * bs))
                   (Some ((w_rng s1)\<lparr>rs_pos := rs_pos (w_rng s1) + nat (n + 50) * (k * nat bs)\<rparr>))
                   (w_glob s1) = Inr (stat, Some r', w_glob s1) \<and>
                 length stat = nat (min bs (w_remaining s1 - int k * bs)) \<and>
                 take (length stat) (drop (nat (w_finished s1) + k * nat bs) (w_res s')) = stat"
    by blast
  have whole: "wrapper_loop gauss pinv n trend bs (j # js) s = Inr s'"
    using b0 run by (simp add: s1_def)
  have pre1: "take (nat ?f + nat ?c) (w_res s') = take (nat ?f) ?res @ stat0"
    using pre lenres l0 by (simp add: s1 fc)
  have prefix: "take (nat ?f) (w_res s') = take (nat ?f) ?res"
  proof -
    have "take (nat ?f) (w_res s') = take (nat ?f) (take (nat ?f + nat ?c) (w_res s'))"
      by (simp add: min_def)
    also have "\<dots> = take (nat ?f) ?res" using lenres by (simp add: pre1)
    finally show ?thesis .
  qed
  have seg0: "take (nat ?c) (drop (nat ?f) (w_res s')) = stat0"
  proof -
    have "take (nat ?c) (drop (nat ?f) (w_res s')) = drop (nat ?f) (take (nat ?f + nat ?c) (w_res s'))"
      by (simp add: drop_take)
    also have "\<dots> = stat0" using lenres by (simp add: pre1)
    finally show ?thesis .
  qed
  have rng': "w_rng s' = (w_rng s)\<lparr>rs_pos := rs_pos (w_rng s) + nat (n + 50) * nat ?rem\<rparr>"
  proof -
    have "nat ?c + nat (?rem - ?c) = nat ?rem" using c by linarith
    then have "nat (n + 50) * nat ?c + nat (n + 50) * nat (?rem - ?c) = nat (n + 50) * nat ?rem"
      by (simp flip: distrib_left)
    then show ?thesis using rg by (simp add: s1 add.assoc)
  qed
  have blocks: "\<exists>stat r'.
       adf_simulation gauss pinv n trend (min bs (?rem - int k * bs))
         (Some ((w_rng s)\<lparr>rs_pos := rs_pos (w_rng s) + nat (n + 50) * (k * nat bs)\<rparr>))
         (w_glob s) = Inr (stat, Some r', w_glob s) \<and>
       length stat = nat (min bs (?rem - int k * bs)) \<and>
       take (length stat) (drop (nat ?f + k * nat bs) (w_res s')) = stat"
    if k: "k < length (j # js)" for k
  proof (cases k)
    case 0
    then show ?thesis using a0 l0 seg0 by simp
  next
    case (Suc k')
    then have k': "k' < length js" using k by simp
    then have "0 < length js" by (cases js) simp_all
    then have "0 < nat ((w_remaining s1 + bs - 1) div bs)" using p4 by simp
    then have "0 < (w_remaining s1 + bs - 1) div bs" by simp
    then have "0 < w_remaining s1" using bs by (simp add: pos_imp_zdiv_pos_iff)
    then have cb: "?c = bs" using c by (simp add: s1 min_def split: if_splits)
    from blk k' obtain stat r' where
      a: "adf_simulation gauss pinv n trend (min bs (w_remaining s1 - int k' * bs))
            (Some ((w_rng s1)\<lparr>rs_pos := rs_pos (w_rng s1) + nat (n + 50) * (k' * nat bs)\<rparr>))
            (w_glob s1) = Inr (stat, Some r', w_glob s1)"
      and l: "length stat = nat (min bs (w_remaining s1 - int k' * bs))"
      and sg: "take (length stat) (drop (nat (w_finished s1) + k' * nat bs) (w_res s')) = stat"
      by blast
    have e1: "w_remaining s1 - int k' * bs = ?rem - int k * bs"
      using cb by (simp add: s1 Suc algebra_simps)
    have e2: "(w_rng s1)\<lparr>rs_pos := rs_pos (w_rng s1) + nat (n + 50) * (k' * nat bs)\<rparr> =
        (w_rng s)\<lparr>rs_pos := rs_pos (w_rng s) + nat (n + 50) * (k * nat bs)\<rparr>"
      using cb by (simp add: s1 Suc algebra_simps)
    have e3: "nat (w_finished s1) + k' * nat bs = nat ?f + k * nat bs"
      using cb fc by (simp add: s1 Suc)
    show ?thesis using a l sg unfolding e1 e2 e3 by (auto simp: s1)
  qed
  show ?case
    using whole g ln len1 prefix rng' blocks by (simp add: s1)
qed

lemma length_py_range: "0 < bs \<Longrightarrow> length (py_range b bs) = nat ((b + bs - 1) div bs)"
  by (simp add: py_range_def)

lemma wrapper_start:
  assumes "0 \<le> b" and "n \<noteq> 0" and "block_size_of M n \<noteq> 0" and "0 \<le> sd" and "sd < 2 ^ 32"
  shows "wrapper M gauss pinv n trend b sd glob =
           (case wrapper_loop gauss pinv n trend (block_size_of M n) (py_range b (block_size_of M n))
                   \<lparr>w_remaining = b, w_res = replicate (nat b) (Fin 0), w_finished = 0,
                    w_rng = seeded gauss sd, w_glob = glob\<rparr> of
              Inl e \<Rightarrow> Inl e
            | Inr s \<Rightarrow> Inr (w_res s, w_glob s))"
  using assms by (simp add: wrapper_eq Let_def)

lemma wrapper_blocks:
  assumes n: "0 < n" and b: "0 \<le> b" and bs: "0 < block_size_of M n"
    and pv: "\<forall>zm. adf_regressors n trend = Inr (Some zm) \<longrightarrow> pinv_shaped pinv zm"
    and sv: "0 \<le> sd" "sd < 2 ^ 32"
  shows "\<exists>res. wrapper M gauss pinv n trend b sd glob = Inr (res, glob) \<and>
           length res = nat b \<and>
           (\<forall>k<nat ((b + block_size_of M n - 1) div block_size_of M n). \<exists>stat r'.
              adf_simulation gauss pinv n trend (min (block_size_of M n) (b - int k * block_size_of M n))
                (Some \<lparr>rs_stream = gauss sd, rs_pos = nat (n + 50) * (k * nat (block_size_of M n))\<rparr>)
                glob = Inr (stat, Some r', glob) \<and>
              length stat = nat (min (block_size_of M n) (b - int k * block_size_of M n)) \<and>
              take (length stat) (drop (k * nat (block_size_of M n)) res) = stat)"
proof -
  let ?bs = "block_size_of M n"
  let ?s0 = "\<lparr>w_remaining = b, w_res = replicate (nat b) (Fin 0), w_finished = 0,
              w_rng = seeded gauss sd, w_glob = glob\<rparr>"
  have p: "0 \<le> w_finished ?s0" "0 \<le> w_remaining ?s0"
    "length (w_res ?s0) = nat (w_finished ?s0 + w_remaining ?s0)"
    "length (py_range b ?bs) = nat ((w_remaining ?s0 + ?bs - 1) div ?bs)"
    using b bs by (simp_all add: length_py_range)
  from wrapper_loop_blocks [OF n bs pv p, of gauss] obtain s' where
    run: "wrapper_loop gauss pinv n trend ?bs (py_range b ?bs) ?s0 = Inr s'"
    and g: "w_glob s' = glob" and ln: "length (w_res s') = nat b"
    and blk: "\<forall>k<length (py_range b ?bs). \<exists>stat r'.
                 adf_simulation gauss pinv n trend (min ?bs (b - int k * ?bs))
                   (Some \<lparr>rs_stream = gauss sd, rs_pos = nat (n + 50) * (k * nat ?bs)\<rparr>)
                   glob = Inr (stat, Some r', glob) \<and>
                 length stat = nat (min ?bs (b - int k * ?bs)) \<and>
                 take (length stat) (drop (k * nat ?bs) (w_res s')) = stat"
    by (auto simp: seeded_def)
  have "wrapper M gauss pinv n trend b sd glob = Inr (w_res s', glob)"
    using wrapper_start [of b n M sd gauss pinv trend glob] n b bs sv run g by simp
  then show ?thesis using ln blk bs by (auto simp: length_py_range)
qed

lemma py_range_single: "0 < b \<Longrightarrow> b \<le> bs \<Longrightarrow> py_range b bs = [0]"
proof -
  assume b: "0 < b" "b \<le> bs"
  then have "(b + bs - 1) div bs = (b - 1 + 1 * bs) div bs" by (simp add: algebra_simps)
  also have "\<dots> = (b - 1) div bs + 1" using b by simp
  also have "(b - 1) div bs = 0" using b by (simp add: div_pos_pos_trivial)
  finally have "nat ((b + bs - 1) div bs) = 1" by simp
  then show ?thesis using b by (simp add: py_range_def)
qed

lemma py_range_empty: "0 < bs \<Longrightarrow> py_range 0 bs = []"
  by (simp add: py_range_def div_pos_pos_trivial)

lemma wrapper_body_large_block:
  "w_remaining s \<le> bs \<Longrightarrow> w_remaining s \<le> bs' \<Longrightarrow>
   wrapper_body gauss pinv n trend bs s = wrapper_body gauss pinv n trend bs' s"
  by (simp add: wrapper_body_def)

lemma wrapper_large_blocks:
  assumes "0 \<le> b" and "n \<noteq> 0" and "b \<le> block_size_of M n" and "b \<le> block_size_of M' n"
    and "0 < block_size_of M n" and "0 < block_size_of M' n"
    and "0 \<le> sd" and "sd < 2 ^ 32"
  shows "wrapper M gauss pinv n trend b sd glob = wrapper M' gauss pinv n trend b sd glob"
proof (cases "b = 0")
  case True
  have "wrapper X gauss pinv n trend b sd glob = Inr (replicate (nat b) (Fin 0), glob)"
    if "0 < block_size_of X n" for X
    using wrapper_start [of b n X sd gauss pinv trend glob] that assms(1,2,7,8) True
    by (simp add: py_range_empty)
  then show ?thesis using assms by simp
next
  case False
  then have b: "0 < b" using assms by simp
  let ?s0 = "\<lparr>w_remaining = b, w_res = replicate (nat b) (Fin 0), w_finished = 0,
              w_rng = seeded gauss sd, w_glob = glob\<rparr>"
  have "wrapper_body gauss pinv n trend (block_size_of M n) ?s0 =
        wrapper_body gauss pinv n trend (block_size_of M' n) ?s0"
    using assms by (intro wrapper_body_large_block) simp_all
  then show ?thesis using assms b
    by (simp add: wrapper_start [of b n _ sd gauss pinv trend glob] py_range_single
          split: sum.split)
qed

lemma adf_simulation_None:
  assumes "0 < n" and "0 \<le> c"
    and "\<forall>zm. adf_regressors n trend = Inr (Some zm) \<longrightarrow> pinv_shaped pinv zm"
  shows "\<exists>stat. adf_simulation gauss pinv n trend c None g =
             Inr (stat, None, \<lparr>rs_stream = gauss 0, rs_pos = nat (n + 50) * nat c\<rparr>)"
proof -
  obtain stat where "adf_simulation gauss pinv n trend c (Some (seeded gauss 0)) g =
      Inr (stat, Some ((seeded gauss 0)\<lparr>rs_pos := rs_pos (seeded gauss 0) + nat (n + 50) * nat c\<rparr>), g)"
    using adf_simulation_Some [OF assms, of gauss "seeded gauss 0" g] by blast
  then show ?thesis
    by (auto simp: adf_simulation_eq Let_def seeded_def split: sum.splits prod.splits)
qed

lemma bs_1_131072: "block_size_of 1 131072 = 1"
  by (simp add: block_size_of_def py_int_def)

lemma bs_100_2: "block_size_of 100 2 = 6553600"
  by (simp add: block_size_of_def py_int_def)

lemma bs_200_2: "block_size_of 200 2 = 13107200"
  by (simp add: block_size_of_def py_int_def)

lemma bs_frac_2: "block_size_of (1 / 65536) 2 = 1" "block_size_of (1 / 32768) 2 = 2"
  by (simp_all add: block_size_of_def py_int_def)

lemma nc_pinv: "\<forall>zm. adf_regressors n ''nc'' = Inr (Some zm) \<longrightarrow> pinv_shaped pinv zm"
  by (simp add: adf_regressors_def)

section \<open>C1: the memory budget and the returned values\<close>

text \<open>
  C1 as stated says that the returned statistics do not depend on the memory budget. The budget
  fixes the block size, and \<^verbatim>\<open>standard_normal((n + 50, count))\<close> fills the matrix of a block
  row by row: column \<open>j\<close> of a block of \<open>count\<close> columns takes every \<open>count\<close>-th value of
  the stream, so another block size gives every column other values of the same stream. For
  \<open>n = 2\<close>, two draws, seed 0 and a generator whose \<open>k\<close>-th normal value is \<open>k + 1\<close>, a
  budget of \<open>1 / 65536\<close> MiB (block size 1) and a budget of \<open>1 / 32768\<close> MiB (block size 2)
  return
  different vectors.
\<close>

theorem wrapper_budget_counterexample:
  "block_size_of (1 / 65536) 2 = 1 \<and> block_size_of (1 / 32768) 2 = 2 \<and>
   map_sum id fst (wrapper (1 / 65536) ramp pinv_ones 2 ''nc'' 2 0 zero_glob) =
     Inr [Fin (2 / 51), Fin (4 / 153)] \<and>
   map_sum id fst (wrapper (1 / 32768) ramp pinv_ones 2 ''nc'' 2 0 zero_glob) =
     Inr [Fin (103 / 2601), Fin (2 / 51)]"
  by code_simp

text \<open>
  C1, amended: for every \<open>n > 0\<close>, \<open>total_draws \<ge> 0\<close>, seed in \<open>0 .. 2^32 - 1\<close> (the
  seeds that \<^verbatim>\<open>rng.seed\<close> accepts) and two budgets that give positive block sizes,
  \<open>wrapper\<close> returns \<open>total_draws\<close> statistics under both budgets and leaves the
  module-level generator alone; the returned values are the same whenever the two block
  sizes, capped at \<open>total_draws\<close>, are equal (in particular whenever both budgets hold all
  draws in one block). For a trend with regressors the pseudo-inverse is assumed to have the
  transposed shape of the regressor matrix.
\<close>

theorem wrapper_budget_dependence:
  assumes "0 < n" and "0 \<le> b"
    and "0 < block_size_of M1 n" and "0 < block_size_of M2 n"
    and "\<forall>zm. adf_regressors n trend = Inr (Some zm) \<longrightarrow> pinv_shaped pinv zm"
    and "0 \<le> sd" and "sd < 2 ^ 32"
  shows "\<exists>res1 res2.
           wrapper M1 gauss pinv n trend b sd glob = Inr (res1, glob) \<and>
           wrapper M2 gauss pinv n trend b sd glob = Inr (res2, glob) \<and>
           length res1 = nat b \<and> length res2 = nat b \<and>
           (min (block_size_of M1 n) b = min (block_size_of M2 n) b \<longrightarrow> res1 = res2)"
proof -
  obtain res1 where r1: "wrapper M1 gauss pinv n trend b sd glob = Inr (res1, glob)"
    and l1: "length res1 = nat b"
    using wrapper_blocks [OF assms(1,2,3,5,6,7), of gauss glob] by blast
  obtain res2 where r2: "wrapper M2 gauss pinv n trend b sd glob = Inr (res2, glob)"
    and l2: "length res2 = nat b"
    using wrapper_blocks [OF assms(1,2,4,5,6,7), of gauss glob] by blast
  have "res1 = res2" if m: "min (block_size_of M1 n) b = min (block_size_of M2 n) b"
  proof (cases "block_size_of M1 n < b")
    case True
    with m have "block_size_of M1 n = block_size_of M2 n" by (simp add: min_def split: if_splits)
    then have "wrapper M1 gauss pinv n trend b sd glob = wrapper M2 gauss pinv n trend b sd glob"
      using assms(6,7) by (simp add: wrapper_eq)
    with r1 r2 show ?thesis by simp
  next
    case False
    with m have "b \<le> block_size_of M1 n" "b \<le> block_size_of M2 n"
      by (simp_all add: min_def split: if_splits)
    then have "wrapper M1 gauss pinv n trend b sd glob = wrapper M2 gauss pinv n trend b sd glob"
      using assms by (intro wrapper_large_blocks) simp_all
    with r1 r2 show ?thesis by simp
  qed
  with r1 r2 l1 l2 show ?thesis by blast
qed

theorem wrapper_budget_dependence_witness:
  "(0::int) < 2 \<and> (0::int) \<le> 1 \<and> 0 < block_size_of 100 2 \<and> 0 < block_size_of 200 2 \<and>
   (0::int) \<le> 0 \<and> (0::int) < 2 ^ 32 \<and>
   min (block_size_of 100 2) 1 = min (block_size_of 200 2) 1 \<and>
   (\<exists>res. wrapper 100 ramp pinv_ones 2 ''nc'' 1 0 zero_glob = Inr (res, zero_glob) \<and>
      wrapper 200 ramp pinv_ones 2 ''nc'' 1 0 zero_glob = Inr (res, zero_glob) \<and> length res = 1)"
proof -
  have h: "(0::int) < 2" "(0::int) \<le> 1" "0 < block_size_of 100 2" "0 < block_size_of 200 2"
    by (simp_all add: bs_100_2 bs_200_2)
  have v: "(0::int) \<le> 0" "(0::int) < 2 ^ 32" by simp_all
  have m: "min (block_size_of 100 2) 1 = min (block_size_of 200 2) 1"
    by (simp add: bs_100_2 bs_200_2)
  from wrapper_budget_dependence [OF h nc_pinv v, of ramp pinv_ones zero_glob] m
  have "\<exists>res. wrapper 100 ramp pinv_ones 2 ''nc'' 1 0 zero_glob = Inr (res, zero_glob) \<and>
      wrapper 200 ramp pinv_ones 2 ''nc'' 1 0 zero_glob = Inr (res, zero_glob) \<and> length res = 1"
    by auto
  with h v m show ?thesis by simp
qed

section \<open>C10: one random stream per call of \<^verbatim>\<open>wrapper\<close>\<close>

text \<open>
  C10: every call that \<open>wrapper\<close> makes to \<open>adf_simulation\<close> passes the generator that
  \<open>wrapper\<close> seeded once with \<open>rng_seed\<close>: block \<open>k\<close> is computed by the call with the
  generator on the stream of that seed at position \<open>(n + 50) * k * block_size\<close>, where the
  block before it stopped, and its statistics are the \<open>k\<close>-th segment of the result. The
  \<open>rng = None\<close> branch is never taken: it would leave the module-level generator on the
  stream of seed 0 (second part), whereas \<open>wrapper\<close> returns it unchanged, whatever its
  state. The executions are those in which \<open>wrapper\<close> reaches its calls: the seed is one
  that \<^verbatim>\<open>rng.seed\<close> accepts (\<open>0 .. 2^32 - 1\<close>), \<open>n > 0\<close>, \<open>b \<ge> 0\<close> and the block size is
  positive.
\<close>

theorem wrapper_single_stream:
  assumes "0 < n" and "0 \<le> b" and "0 < block_size_of M n"
    and "\<forall>zm. adf_regressors n trend = Inr (Some zm) \<longrightarrow> pinv_shaped pinv zm"
    and "0 \<le> sd" and "sd < 2 ^ 32"
  shows "(\<exists>res. wrapper M gauss pinv n trend b sd glob = Inr (res, glob) \<and>
           length res = nat b \<and>
           (\<forall>k<nat ((b + block_size_of M n - 1) div block_size_of M n). \<exists>stat r'.
              adf_simulation gauss pinv n trend (min (block_size_of M n) (b - int k * block_size_of M n))
                (Some \<lparr>rs_stream = gauss sd, rs_pos = nat (n + 50) * (k * nat (block_size_of M n))\<rparr>)
                glob = Inr (stat, Some r', glob) \<and>
              length stat = nat (min (block_size_of M n) (b - int k * block_size_of M n)) \<and>
              take (length stat) (drop (k * nat (block_size_of M n)) res) = stat)) \<and>
         (\<exists>stat. adf_simulation gauss pinv n trend b None glob =
              Inr (stat, None, \<lparr>rs_stream = gauss 0, rs_pos = nat (n + 50) * nat b\<rparr>))"
  using wrapper_blocks [OF assms, of gauss glob] adf_simulation_None [OF assms(1,2,4), of gauss glob]
  by simp

text \<open>
  An instance with two blocks: a budget of 1 MiB and \<open>n = 131072\<close> give a block size of 1,
  so two draws are two calls, the second with the generator \<open>131122\<close> values further on the
  stream of seed 7.
\<close>

theorem wrapper_single_stream_witness:
  "(0::int) < 131072 \<and> (0::int) \<le> 2 \<and> 0 < block_size_of 1 131072 \<and>
   (0::int) \<le> 7 \<and> (7::int) < 2 ^ 32 \<and>
   (\<exists>res. wrapper 1 ramp pinv_ones 131072 ''nc'' 2 7 zero_glob = Inr (res, zero_glob) \<and>
      length res = 2 \<and>
      (\<exists>stat r'. adf_simulation ramp pinv_ones 131072 ''nc'' 1
           (Some \<lparr>rs_stream = ramp 7, rs_pos = 0\<rparr>) zero_glob = Inr (stat, Some r', zero_glob) \<and>
         length stat = 1 \<and> take 1 res = stat) \<and>
      (\<exists>stat r'. adf_simulation ramp pinv_ones 131072 ''nc'' 1
           (Some \<lparr>rs_stream = ramp 7, rs_pos = 131122\<rparr>) zero_glob = Inr (stat, Some r', zero_glob) \<and>
         length stat = 1 \<and> take 1 (drop 1 res) = stat)) \<and>
   (\<exists>stat. adf_simulation ramp pinv_ones 131072 ''nc'' 2 None zero_glob =
      Inr (stat, None, \<lparr>rs_stream = ramp 0, rs_pos = 262244\<rparr>))"
proof -
  have h: "(0::int) < 131072" "(0::int) \<le> 2" "0 < block_size_of 1 131072"
    by (simp_all add: bs_1_131072)
  have v: "(0::int) \<le> 7" "(7::int) < 2 ^ 32" by simp_all
  note t = wrapper_single_stream [OF h nc_pinv v, of ramp pinv_ones zero_glob]
  from t obtain res where r: "wrapper 1 ramp pinv_ones 131072 ''nc'' 2 7 zero_glob = Inr (res, zero_glob)"
    and l: "length res = 2"
    and blk: "\<forall>k<2. \<exists>stat r'.
              adf_simulation ramp pinv_ones 131072 ''nc'' (min 1 (2 - int k))
                (Some \<lparr>rs_stream = ramp 7, rs_pos = 131122 * k\<rparr>)
                zero_glob = Inr (stat, Some r', zero_glob) \<and>
              length stat = nat (min 1 (2 - int k)) \<and>
              take (length stat) (drop k res) = stat"
    by (auto simp: bs_1_131072)
  have b0: "\<exists>stat r'. adf_simulation ramp pinv_ones 131072 ''nc'' 1
           (Some \<lparr>rs_stream = ramp 7, rs_pos = 0\<rparr>) zero_glob = Inr (stat, Some r', zero_glob) \<and>
         length stat = 1 \<and> take 1 res = stat"
    using blk [rule_format, of 0] by auto
  have b1: "\<exists>stat r'. adf_simulation ramp pinv_ones 131072 ''nc'' 1
           (Some \<lparr>rs_stream = ramp 7, rs_pos = 131122\<rparr>) zero_glob = Inr (stat, Some r', zero_glob) \<and>
         length stat = 1 \<and> take 1 (drop 1 res) = stat"
    using blk [rule_format, of 1] by auto
  have n: "\<exists>stat. adf_simulation ramp pinv_ones 131072 ''nc'' 2 None zero_glob =
      Inr (stat, None, \<lparr>rs_stream = ramp 0, rs_pos = 262244\<rparr>)"
    using t by simp
  from r l b0 b1 have "\<exists>res. wrapper 1 ramp pinv_ones 131072 ''nc'' 2 7 zero_glob = Inr (res, zero_glob) \<and>
      length res = 2 \<and>
      (\<exists>stat r'. adf_simulation ramp pinv_ones 131072 ''nc'' 1
           (Some \<lparr>rs_stream = ramp 7, rs_pos = 0\<rparr>) zero_glob = Inr (stat, Some r', zero_glob) \<and>
         length stat = 1 \<and> take 1 res = stat) \<and>
      (\<exists>stat r'. adf_simulation ramp pinv_ones 131072 ''nc'' 1
           (Some \<lparr>rs_stream = ramp 7, rs_pos = 131122\<rparr>) zero_glob = Inr (stat, Some r', zero_glob) \<and>
         length stat = 1 \<and> take 1 (drop 1 res) = stat)"
    by blast
  with h v n show ?thesis by (intro conjI)
qed

section \<open>The percentile reduction\<close>

lemma virtual_index:
  fixes q :: real and N :: nat
  assumes "0 < N" and "0 \<le> q" and "q \<le> 100"
  defines "h \<equiv> q / 100 * real (N - 1)"
  shows "0 \<le> h" and "h \<le> real (N - 1)" and "real (nat \<lfloor>h\<rfloor>) \<le> h"
    and "h < real (nat \<lfloor>h\<rfloor>) + 1" and "nat \<lfloor>h\<rfloor> \<le> N - 1"
proof -
  show h0: "0 \<le> h" using assms by (simp add: h_def)
  have "q / 100 \<le> 1" using assms by simp
  then have "q / 100 * real (N - 1) \<le> 1 * real (N - 1)"
    by (intro mult_right_mono) simp_all
  then show h1: "h \<le> real (N - 1)" by (simp add: h_def)
  have fl: "0 \<le> \<lfloor>h\<rfloor>" using h0 by simp
  have rl: "real (nat \<lfloor>h\<rfloor>) = of_int \<lfloor>h\<rfloor>" using fl by simp
  show lo: "real (nat \<lfloor>h\<rfloor>) \<le> h" unfolding rl by (rule of_int_floor_le)
  show "h < real (nat \<lfloor>h\<rfloor>) + 1" unfolding rl by (rule real_of_int_floor_add_one_gt)
  have "real (nat \<lfloor>h\<rfloor>) \<le> real (N - 1)" using lo h1 by linarith
  then show "nat \<lfloor>h\<rfloor> \<le> N - 1" by simp
qed

lemma percentile1_between:
  assumes "xs \<noteq> []" and "0 \<le> q" and "q \<le> 100"
  shows "sort xs ! nat \<lfloor>q / 100 * real (length xs - 1)\<rfloor> \<le> percentile1 xs q \<and>
         percentile1 xs q \<le> sort xs ! min (nat \<lfloor>q / 100 * real (length xs - 1)\<rfloor> + 1) (length xs - 1)"
proof -
  define N where "N = length xs"
  define s where "s = sort xs"
  define h where "h = q / 100 * real (N - 1)"
  define lo where "lo = nat \<lfloor>h\<rfloor>"
  define hi where "hi = min (lo + 1) (N - 1)"
  define w where "w = h - real lo"
  have N: "0 < N" using assms by (simp add: N_def)
  note vi = virtual_index [OF N assms(2,3), folded h_def, folded lo_def]
  have w: "0 \<le> w" "w < 1" using vi by (simp_all add: w_def)
  have "hi < N" using N unfolding hi_def by arith
  then have "hi < length (sort xs)" by (simp only: N_def length_sort)
  moreover have "lo \<le> hi" using vi(5) by (simp add: hi_def)
  ultimately have srt: "s ! lo \<le> s ! hi"
    unfolding s_def by (intro sorted_nth_mono) simp_all
  have p: "percentile1 xs q = s ! lo * (1 - w) + s ! hi * w"
    by (simp add: percentile1_def Let_def N_def s_def h_def lo_def hi_def w_def)
  have a: "s ! lo \<le> s ! lo * (1 - w) + s ! hi * w"
  proof -
    have "0 \<le> (s ! hi - s ! lo) * w" using srt w by simp
    then show ?thesis by (simp add: algebra_simps)
  qed
  have b: "s ! lo * (1 - w) + s ! hi * w \<le> s ! hi"
  proof -
    have "0 \<le> (s ! hi - s ! lo) * (1 - w)" using srt w by simp
    then show ?thesis by (simp add: algebra_simps)
  qed
  show ?thesis using a b unfolding p by (simp add: N_def s_def h_def lo_def hi_def)
qed

lemma percentile1_mono:
  assumes "xs \<noteq> []" and "0 \<le> p" and "p \<le> q" and "q \<le> 100"
  shows "percentile1 xs p \<le> percentile1 xs q"
proof -
  define N where "N = length xs"
  define s where "s = sort xs"
  define hp where "hp = p / 100 * real (N - 1)"
  define hq where "hq = q / 100 * real (N - 1)"
  define lp where "lp = nat \<lfloor>hp\<rfloor>"
  define lq where "lq = nat \<lfloor>hq\<rfloor>"
  have N: "0 < N" using assms by (simp add: N_def)
  have p100: "p \<le> 100" and q0: "0 \<le> q" using assms by simp_all
  note vp = virtual_index [OF N assms(2) p100, folded hp_def, folded lp_def]
  note vq = virtual_index [OF N q0 assms(4), folded hq_def, folded lq_def]
  have hm: "hp \<le> hq"
    unfolding hp_def hq_def using assms by (intro mult_right_mono divide_right_mono) simp_all
  have lom: "lp \<le> lq" unfolding lp_def lq_def using hm by (intro nat_mono floor_mono)
  have pp: "percentile1 xs p = s ! lp * (1 - (hp - real lp)) + s ! min (lp + 1) (N - 1) * (hp - real lp)"
    by (simp add: percentile1_def Let_def N_def s_def hp_def lp_def)
  have pq: "percentile1 xs q = s ! lq * (1 - (hq - real lq)) + s ! min (lq + 1) (N - 1) * (hq - real lq)"
    by (simp add: percentile1_def Let_def N_def s_def hq_def lq_def)
  show ?thesis
  proof (cases "lp = lq")
    case True
    have "min (lq + 1) (N - 1) < N" using N by arith
    then have "min (lq + 1) (N - 1) < length (sort xs)" by (simp only: N_def length_sort)
    moreover have "lq \<le> min (lq + 1) (N - 1)" using vq(5) by simp
    ultimately have srt: "s ! lq \<le> s ! min (lq + 1) (N - 1)"
      unfolding s_def by (intro sorted_nth_mono) simp_all
    have "percentile1 xs q - percentile1 xs p = (s ! min (lq + 1) (N - 1) - s ! lq) * (hq - hp)"
      unfolding pp pq True by (simp add: algebra_simps)
    moreover have "0 \<le> (s ! min (lq + 1) (N - 1) - s ! lq) * (hq - hp)"
      using srt hm by simp
    ultimately show ?thesis by linarith
  next
    case False
    then have lt: "lp + 1 \<le> lq" using lom by simp
    have "percentile1 xs p \<le> s ! min (lp + 1) (N - 1)"
      using percentile1_between [OF assms(1,2) p100]
      by (simp add: N_def s_def hp_def lp_def)
    also have "\<dots> \<le> s ! lq"
    proof -
      have "lq < N" using vq(5) N by arith
      then have "lq < length (sort xs)" by (simp only: N_def length_sort)
      moreover have "min (lp + 1) (N - 1) \<le> lq" using lt by simp
      ultimately show ?thesis unfolding s_def by (intro sorted_nth_mono) simp_all
    qed
    also have "\<dots> \<le> percentile1 xs q"
      using percentile1_between [OF assms(1) q0 assms(4)]
      by (simp add: N_def s_def hq_def lq_def)
    finally show ?thesis .
  qed
qed

lemma percentiles_eq: "percentiles = map (\<lambda>k. 1 / 2 + real k * (1 / 2)) [0..<199]"
  by (simp add: percentiles_def arange_step_def)

lemma length_percentiles [simp]: "length percentiles = 199"
  by (simp add: percentiles_eq)

lemma percentiles_nth: "k < 199 \<Longrightarrow> percentiles ! k = 1 / 2 + real k * (1 / 2)"
  by (simp add: percentiles_eq)

lemma percentiles_range: "q \<in> set percentiles \<Longrightarrow> 0 \<le> q \<and> q \<le> 100"
proof -
  assume "q \<in> set percentiles"
  then obtain k where k: "k < 199" and q: "q = 1 / 2 + real k * (1 / 2)"
    by (auto simp: percentiles_eq)
  from k have "real k \<le> 198" by simp
  with q show ?thesis by simp
qed

lemma sorted_percentiles: "sorted percentiles"
  unfolding percentiles_eq by (simp add: sorted_iff_nth_mono del: upt_Suc)

lemma sorted_map_percentile1:
  assumes "xs \<noteq> []" and "sorted qs" and "\<forall>q \<in> set qs. 0 \<le> q \<and> q \<le> 100"
  shows "sorted (map (percentile1 xs) qs)"
proof -
  have "sorted_wrt (\<lambda>p q. percentile1 xs p \<le> percentile1 xs q) qs"
  proof (rule sorted_wrt_mono_rel [of qs "(\<le>)"])
    fix p q
    assume "p \<in> set qs" "q \<in> set qs" "p \<le> q"
    then show "percentile1 xs p \<le> percentile1 xs q"
      using assms by (intro percentile1_mono) auto
  next
    show "sorted_wrt (\<le>) qs" using assms(2) by simp
  qed
  then show ?thesis by (simp add: sorted_map)
qed

lemma percentile_finite:
  assumes "x \<noteq> []" and "list_all is_fin x" and "\<forall>q \<in> set qs. 0 \<le> q \<and> q \<le> 100"
  shows "percentile x qs = Inr (map Fin (map (percentile1 (map the_fin x)) qs))"
proof -
  have "\<not> (\<exists>q \<in> set qs. q < 0 \<or> 100 < q)" using assms(3) by (auto simp: not_less)
  then show ?thesis using assms(1,2) by (simp add: percentile_def comp_def)
qed

lemma percentile_example:
  "percentile [Fin 3, Fin 1, Fin 2] [1 / 2, 50, 995 / 10] = Inr [Fin (101 / 100), Fin 2, Fin (299 / 100)]"
  by (simp add: percentile_def percentile1_def Let_def)

section \<open>C8: the percentiles of a replication are non-decreasing\<close>

text \<open>
  C8: for every non-empty draw vector of finite values, the percentile reduction at an
  increasing grid of levels in \<open>[0, 100]\<close> returns a non-decreasing sequence of values;
  this holds for the program's grid \<open>0.5, 1.0, \<dots>, 99.5\<close>, and for the grid
  \<open>[0.5, 50.0, 99.5]\<close> the three values are in order. The percentile is the model of
  \<^verbatim>\<open>numpy.percentile\<close> given above, over the real numbers.
\<close>

theorem percentile_monotone:
  assumes "x \<noteq> []" and "list_all is_fin x"
  shows "(sorted qs \<and> (\<forall>q \<in> set qs. 0 \<le> q \<and> q \<le> 100) \<longrightarrow>
            (\<exists>vs. percentile x qs = Inr (map Fin vs) \<and> length vs = length qs \<and> sorted vs)) \<and>
         (\<exists>vs. percentile x percentiles = Inr (map Fin vs) \<and> length vs = length percentiles \<and>
            sorted vs) \<and>
         (\<exists>a b c. percentile x [1 / 2, 50, 995 / 10] = Inr [Fin a, Fin b, Fin c] \<and> a \<le> b \<and> b \<le> c)"
proof -
  have gen: "\<exists>vs. percentile x qs = Inr (map Fin vs) \<and> length vs = length qs \<and> sorted vs"
    if "sorted qs" and "\<forall>q \<in> set qs. 0 \<le> q \<and> q \<le> 100" for qs
  proof -
    have "map the_fin x \<noteq> []" using assms(1) by simp
    then have "sorted (map (percentile1 (map the_fin x)) qs)"
      using that by (rule sorted_map_percentile1)
    then show ?thesis using percentile_finite [OF assms that(2)]
      by (intro exI [of _ "map (percentile1 (map the_fin x)) qs"]) simp
  qed
  have grid: "\<exists>vs. percentile x percentiles = Inr (map Fin vs) \<and> length vs = length percentiles \<and>
      sorted vs"
    using gen [OF sorted_percentiles] percentiles_range by blast
  have "\<exists>vs. percentile x [1 / 2, 50, 995 / 10] = Inr (map Fin vs) \<and>
      length vs = length [1 / 2, 50, 995 / 10 :: real] \<and> sorted vs"
    by (rule gen) simp_all
  then obtain vs where v: "percentile x [1 / 2, 50, 995 / 10] = Inr (map Fin vs)"
    "length vs = 3" "sorted vs" by auto
  from v(2) obtain a b c where "vs = [a, b, c]"
    by (cases vs; cases "tl vs"; cases "tl (tl vs)") auto
  with v have "percentile x [1 / 2, 50, 995 / 10] = Inr [Fin a, Fin b, Fin c] \<and> a \<le> b \<and> b \<le> c"
    by simp
  then have three: "\<exists>a b c. percentile x [1 / 2, 50, 995 / 10] = Inr [Fin a, Fin b, Fin c] \<and>
      a \<le> b \<and> b \<le> c"
    by blast
  from gen grid three show ?thesis by blast
qed

theorem percentile_monotone_witness:
  "[Fin 3, Fin 1, Fin 2] \<noteq> [] \<and> list_all is_fin [Fin 3, Fin 1, Fin 2] \<and>
   sorted [10, 90 :: real] \<and>
   (\<exists>vs. percentile [Fin 3, Fin 1, Fin 2] [10, 90] = Inr (map Fin vs) \<and> length vs = 2 \<and> sorted vs) \<and>
   (\<exists>a b c. percentile [Fin 3, Fin 1, Fin 2] [1 / 2, 50, 995 / 10] = Inr [Fin a, Fin b, Fin c] \<and>
      a \<le> b \<and> b \<le> c)"
proof -
  have h: "[Fin 3, Fin 1, Fin 2] \<noteq> []" "list_all is_fin [Fin 3, Fin 1, Fin 2]" by simp_all
  have q: "sorted [10, 90 :: real]" by simp
  from percentile_monotone [OF h, of "[10, 90]"] q
  have "(\<exists>vs. percentile [Fin 3, Fin 1, Fin 2] [10, 90] = Inr (map Fin vs) \<and> length vs = 2 \<and> sorted vs) \<and>
   (\<exists>a b c. percentile [Fin 3, Fin 1, Fin 2] [1 / 2, 50, 995 / 10] = Inr [Fin a, Fin b, Fin c] \<and>
      a \<le> b \<and> b \<le> c)"
    by (simp add: numeral_2_eq_2)
  with h q show ?thesis by simp
qed

section \<open>The rounds of the driver\<close>

lemma collect_all_Inr:
  "\<forall>x \<in> set xs. f x = Inr (g x) \<Longrightarrow> collect (map f xs) = Inr (map g xs)"
  by (induction xs) simp_all

lemma nan_table_filled: "table_filled 0 (nan_table (length percentiles) m EX_NUM)"
  by (auto simp: table_filled_def nan_table_def)

lemma length_T [simp]: "length T = 31"
  by (simp add: T_def)

lemma m_eq: "m = 31"
  by (simp add: m_def)

lemma set_length_slice_nth:
  "length tbl = length qt \<Longrightarrow> p < length tbl \<Longrightarrow>
   set_length_slice tbl i qt ! p = (tbl ! p)[i := qt ! p]"
  by (simp add: set_length_slice_def)

lemma length_set_length_slice:
  "length tbl = length qt \<Longrightarrow> length (set_length_slice tbl i qt) = length tbl"
  by (simp add: set_length_slice_def)

lemma table_filled_step:
  assumes tf: "table_filled k tbl" and k: "k < m"
    and lq: "length qt = length percentiles"
    and rows: "\<forall>row \<in> set qt. length row = EX_NUM \<and> (\<forall>v \<in> set row. is_fin v)"
  shows "table_filled (Suc k) (set_length_slice tbl k qt)"
proof -
  have lt: "length tbl = length qt" using tf lq by (simp add: table_filled_def)
  have "length plane = m \<and>
        (\<forall>i<m. length (plane ! i) = EX_NUM \<and>
           (i < Suc k \<longrightarrow> (\<forall>v \<in> set (plane ! i). is_fin v)) \<and>
           (Suc k \<le> i \<longrightarrow> (\<forall>v \<in> set (plane ! i). v = NaN)))"
    if "plane \<in> set (set_length_slice tbl k qt)" for plane
  proof -
    from that obtain p where p: "p < length tbl" and pl: "plane = (tbl ! p)[k := qt ! p]"
      using lt by (auto simp: in_set_conv_nth length_set_length_slice set_length_slice_nth)
    have old: "length (tbl ! p) = m"
      "\<forall>i<m. length (tbl ! p ! i) = EX_NUM \<and>
           (i < k \<longrightarrow> (\<forall>v \<in> set (tbl ! p ! i). is_fin v)) \<and>
           (k \<le> i \<longrightarrow> (\<forall>v \<in> set (tbl ! p ! i). v = NaN))"
    proof -
      have "tbl ! p \<in> set tbl" using p by simp
      then have "length (tbl ! p) = m \<and>
        (\<forall>i<m. length (tbl ! p ! i) = EX_NUM \<and>
           (i < k \<longrightarrow> (\<forall>v \<in> set (tbl ! p ! i). is_fin v)) \<and>
           (k \<le> i \<longrightarrow> (\<forall>v \<in> set (tbl ! p ! i). v = NaN)))"
        using tf unfolding table_filled_def by blast
      then show "length (tbl ! p) = m"
        "\<forall>i<m. length (tbl ! p ! i) = EX_NUM \<and>
           (i < k \<longrightarrow> (\<forall>v \<in> set (tbl ! p ! i). is_fin v)) \<and>
           (k \<le> i \<longrightarrow> (\<forall>v \<in> set (tbl ! p ! i). v = NaN))"
        by blast+
    qed
    have new: "length (qt ! p) = EX_NUM" "\<forall>v \<in> set (qt ! p). is_fin v"
      using rows p lt by auto
    have row: "length (plane ! i) = EX_NUM \<and>
           (i < Suc k \<longrightarrow> (\<forall>v \<in> set (plane ! i). is_fin v)) \<and>
           (Suc k \<le> i \<longrightarrow> (\<forall>v \<in> set (plane ! i). v = NaN))" if i: "i < m" for i
    proof -
      from old(2) i have oi: "length (tbl ! p ! i) = EX_NUM"
        "i < k \<longrightarrow> (\<forall>v \<in> set (tbl ! p ! i). is_fin v)"
        "k \<le> i \<longrightarrow> (\<forall>v \<in> set (tbl ! p ! i). v = NaN)"
        by blast+
      show ?thesis
      proof (cases "i = k")
        case True
        then show ?thesis using new old(1) k pl by simp
      next
        case False
        then have "plane ! i = tbl ! p ! i" using pl by simp
        then show ?thesis using oi False by auto
      qed
    qed
    have "length plane = m" using old pl by simp
    with row show ?thesis by blast
  qed
  then show ?thesis
    using lt lq unfolding table_filled_def by (simp add: length_set_length_slice)
qed

lemma submit_args_set:
  assumes "a \<in> set (submit_args sds t tr)"
  shows "\<exists>s \<in> set sds. a = (t, tr, EX_SIZE, s)"
proof -
  obtain n tr' b s where a: "a = (n, tr', b, s)" by (cases a)
  have 1: "(n, tr', b, s) \<in> set (zip (replicate EX_NUM t)
      (zip (replicate EX_NUM tr) (zip (replicate EX_NUM EX_SIZE) sds)))"
    using assms unfolding submit_args_def a .
  have n: "n \<in> set (replicate EX_NUM t)" using 1 by (rule set_zip_leftD)
  have 2: "(tr', b, s) \<in> set (zip (replicate EX_NUM tr) (zip (replicate EX_NUM EX_SIZE) sds))"
    using 1 by (rule set_zip_rightD)
  have r: "tr' \<in> set (replicate EX_NUM tr)" using 2 by (rule set_zip_leftD)
  have 3: "(b, s) \<in> set (zip (replicate EX_NUM EX_SIZE) sds)" using 2 by (rule set_zip_rightD)
  have b: "b \<in> set (replicate EX_NUM EX_SIZE)" using 3 by (rule set_zip_leftD)
  have s: "s \<in> set sds" using 3 by (rule set_zip_rightD)
  from n r b have "n = t" "tr' = tr" "b = EX_SIZE" by (simp_all split: if_splits)
  with s a show ?thesis by simp
qed

lemma collect_finite_draws:
  assumes "finite_draws run sds tr" and "length sds = EX_NUM" and "t \<in> set T"
  shows "\<exists>out. collect (map_async run (submit_args sds t tr)) = Inr out \<and> length out = EX_NUM \<and>
           (\<forall>x \<in> set out. x \<noteq> [] \<and> list_all is_fin x)"
proof -
  define f where "f = (\<lambda>(n, tr, b, s). run n tr b s)"
  define g where "g = (\<lambda>a. case f a of Inl e \<Rightarrow> [] | Inr xs \<Rightarrow> xs)"
  have fa: "f a = Inr (g a) \<and> g a \<noteq> [] \<and> list_all is_fin (g a)"
    if "a \<in> set (submit_args sds t tr)" for a
  proof -
    from that obtain s where s: "s \<in> set sds" and a: "a = (t, tr, EX_SIZE, s)"
      using submit_args_set by blast
    from assms(1,3) s obtain xs where "run t tr EX_SIZE s = Inr xs" "xs \<noteq> []" "list_all is_fin xs"
      unfolding finite_draws_def by blast
    then show ?thesis by (simp add: a f_def g_def)
  qed
  then have "collect (map f (submit_args sds t tr)) = Inr (map g (submit_args sds t tr))"
    by (intro collect_all_Inr) simp
  moreover have "length (map g (submit_args sds t tr)) = EX_NUM"
    using assms(2) by (simp add: length_submit_args)
  moreover have "\<forall>x \<in> set (map g (submit_args sds t tr)). x \<noteq> [] \<and> list_all is_fin x"
    using fa by auto
  ultimately show ?thesis unfolding map_async_def f_def by blast
qed

lemma reduce_finite_draws:
  assumes "length out = EX_NUM" and "\<forall>x \<in> set out. x \<noteq> [] \<and> list_all is_fin x"
  shows "\<exists>quantiles. collect (map (\<lambda>x. percentile x percentiles) out) = Inr quantiles \<and>
           length (transpose_q (length percentiles) quantiles) = length percentiles \<and>
           (\<forall>row \<in> set (transpose_q (length percentiles) quantiles).
              length row = EX_NUM \<and> (\<forall>v \<in> set row. is_fin v))"
proof -
  define q where "q = (\<lambda>x. map Fin (map (percentile1 (map the_fin x)) percentiles))"
  have "percentile x percentiles = Inr (q x)" if "x \<in> set out" for x
    unfolding q_def using that assms(2) percentiles_range by (intro percentile_finite) auto
  then have c: "collect (map (\<lambda>x. percentile x percentiles) out) = Inr (map q out)"
    by (intro collect_all_Inr) simp
  have ql: "length (q x) = 199 \<and> (\<forall>p<199. is_fin (q x ! p))" for x
    by (simp add: q_def)
  have "length row = EX_NUM \<and> (\<forall>v \<in> set row. is_fin v)"
    if "row \<in> set (transpose_q (length percentiles) (map q out))" for row
  proof -
    from that obtain p where p: "p < 199" and row: "row = map (\<lambda>qr. qr ! p) (map q out)"
      by (auto simp: transpose_q_def)
    show ?thesis using assms(1) ql p by (auto simp: row)
  qed
  moreover have "length (transpose_q (length percentiles) (map q out)) = length percentiles"
    by (simp add: transpose_q_def)
  ultimately show ?thesis using c by blast
qed

lemma driver_round_ok:
  assumes fd: "finite_draws run sds tr" and ls: "length sds = EX_NUM" and t: "t \<in> set T"
    and k: "k < m" and tf: "table_filled k (d_results st)" and idle: "outstanding (d_rc st) = {}"
  shows "\<exists>st'. driver_round run sds tr (k, t) st = Inr st' \<and>
           table_filled (Suc k) (d_results st') \<and> outstanding (d_rc st') = {} \<and>
           d_disk st' = (d_disk st)(''adf_z_'' @ tr @ ''.npz'' \<mapsto>
              \<lparr>a_trend = tr, a_results = d_results st', a_percentiles = percentiles, a_T = T\<rparr>)"
proof -
  obtain out where out: "collect (map_async run (submit_args sds t tr)) = Inr out"
    and lo: "length out = EX_NUM" and fo: "\<forall>x \<in> set out. x \<noteq> [] \<and> list_all is_fin x"
    using collect_finite_draws [OF fd ls t] by blast
  obtain quantiles where qs: "collect (map (\<lambda>x. percentile x percentiles) out) = Inr quantiles"
    and lq: "length (transpose_q (length percentiles) quantiles) = length percentiles"
    and rq: "\<forall>row \<in> set (transpose_q (length percentiles) quantiles).
              length row = EX_NUM \<and> (\<forall>v \<in> set row. is_fin v)"
    using reduce_finite_draws [OF lo fo] by blast
  let ?ids = "[k * EX_NUM..<k * EX_NUM + EX_NUM]"
  let ?pool = "pool_ready ?ids out (pool_submit ?ids (d_rc st, d_lview st))"
  have op: "outstanding (fst ?pool) = {}"
    using idle by (simp add: pool_ready_def pool_submit_def)
  obtain rc' lview' where cc: "clear_cache (fst ?pool) (fst ?pool) (snd ?pool) = Inr (rc', lview')"
    and orc: "outstanding rc' = {}"
    using op by (simp add: clear_cache_def)
  let ?res = "set_length_slice (d_results st) k (transpose_q (length percentiles) quantiles)"
  have step: "table_filled (Suc k) ?res"
    using tf k lq rq by (rule table_filled_step)
  have "driver_round run sds tr (k, t) st =
      Inr (st\<lparr>d_results := ?res,
              d_disk := (d_disk st)(''adf_z_'' @ tr @ ''.npz'' \<mapsto>
                 \<lparr>a_trend = tr, a_results = ?res, a_percentiles = percentiles, a_T = T\<rparr>),
              d_rc := rc', d_lview := lview'\<rparr>)"
    using out cc qs by (simp add: driver_round_def Let_def del: length_percentiles)
  then show ?thesis using step orc by simp
qed

lemma driver_rounds_ok:
  assumes fd: "finite_draws run sds tr" and ls: "length sds = EX_NUM"
  shows "set ts \<subseteq> set T \<Longrightarrow> k0 + length ts \<le> m \<Longrightarrow> table_filled k0 (d_results st) \<Longrightarrow>
         outstanding (d_rc st) = {} \<Longrightarrow>
         \<exists>st'. driver_rounds run sds tr (enumerate k0 ts) st = Inr st' \<and>
              table_filled (k0 + length ts) (d_results st') \<and> outstanding (d_rc st') = {} \<and>
              (ts \<noteq> [] \<longrightarrow> d_disk st' (''adf_z_'' @ tr @ ''.npz'') =
                 Some \<lparr>a_trend = tr, a_results = d_results st', a_percentiles = percentiles, a_T = T\<rparr>)"
proof (induction ts arbitrary: k0 st)
  case Nil
  then show ?case by simp
next
  case (Cons t ts)
  have t: "t \<in> set T" and k: "k0 < m" using Cons.prems by simp_all
  obtain st1 where r1: "driver_round run sds tr (k0, t) st = Inr st1"
    and tf1: "table_filled (Suc k0) (d_results st1)" and o1: "outstanding (d_rc st1) = {}"
    and d1: "d_disk st1 = (d_disk st)(''adf_z_'' @ tr @ ''.npz'' \<mapsto>
              \<lparr>a_trend = tr, a_results = d_results st1, a_percentiles = percentiles, a_T = T\<rparr>)"
    using driver_round_ok [OF fd ls t k Cons.prems(3,4)] by blast
  have p: "set ts \<subseteq> set T" "Suc k0 + length ts \<le> m" using Cons.prems by simp_all
  obtain st' where r: "driver_rounds run sds tr (enumerate (Suc k0) ts) st1 = Inr st'"
    and tf: "table_filled (Suc k0 + length ts) (d_results st')" and o: "outstanding (d_rc st') = {}"
    and d: "ts \<noteq> [] \<longrightarrow> d_disk st' (''adf_z_'' @ tr @ ''.npz'') =
                 Some \<lparr>a_trend = tr, a_results = d_results st', a_percentiles = percentiles, a_T = T\<rparr>"
    using Cons.IH [OF p tf1 o1] by blast
  have whole: "driver_rounds run sds tr (enumerate k0 (t # ts)) st = Inr st'"
    using r1 r by simp
  have disk: "d_disk st' (''adf_z_'' @ tr @ ''.npz'') =
      Some \<lparr>a_trend = tr, a_results = d_results st', a_percentiles = percentiles, a_T = T\<rparr>"
  proof (cases "ts = []")
    case True
    then have "st' = st1" using r by simp
    then show ?thesis using d1 by simp
  next
    case False
    then show ?thesis using d by simp
  qed
  show ?case using whole tf o disk by simp
qed

lemma take_enumerate: "take k (enumerate n xs) = enumerate n (take k xs)"
  by (induction xs arbitrary: k n) (simp_all add: take_Cons split: nat.split)

lemma table_filled_nth:
  assumes "table_filled k tbl" and "p < length percentiles" and "i < m" and "r < EX_NUM"
  shows "(i < k \<longrightarrow> is_fin (tbl ! p ! i ! r)) \<and> (k \<le> i \<longrightarrow> tbl ! p ! i ! r = NaN)"
proof -
  have "tbl ! p \<in> set tbl" using assms by (simp add: table_filled_def)
  then have "length (tbl ! p ! i) = EX_NUM \<and>
           (i < k \<longrightarrow> (\<forall>v \<in> set (tbl ! p ! i). is_fin v)) \<and>
           (k \<le> i \<longrightarrow> (\<forall>v \<in> set (tbl ! p ! i). v = NaN))"
    using assms(1,3) unfolding table_filled_def by blast
  moreover from this have "tbl ! p ! i ! r \<in> set (tbl ! p ! i)" using assms(4) by simp
  ultimately show ?thesis by blast
qed

section \<open>Units of work without regressors\<close>

lemma adf_simulation_plain:
  assumes "0 < n" and "0 \<le> c" and "trend \<notin> {''c'', ''ct'', ''ctt''}"
  shows "\<exists>stat. adf_simulation gauss pinv n trend c (Some r) g =
             Inr (stat, Some (r\<lparr>rs_pos := rs_pos r + nat (n + 50) * nat c\<rparr>), g) \<and>
           length stat = nat c \<and>
           (\<forall>j<nat c. stat ! j =
              np_mul (real (nat (n - 1)))
                (np_sub (np_div
                   (\<Sum>t<nat (n - 1). (\<Sum>i<t + 51. rs_stream r (rs_pos r + i * nat c + j)) *
                                       (\<Sum>i<t + 52. rs_stream r (rs_pos r + i * nat c + j)))
                   (\<Sum>t<nat (n - 1). (\<Sum>i<t + 51. rs_stream r (rs_pos r + i * nat c + j)) ^ 2)) 1))"
proof -
  have z: "adf_regressors n trend = Inr None"
    using assms(3) by (rule adf_regressors_other)
  obtain y0 where d: "adf_draw n c r = Inr (y0, r\<lparr>rs_pos := rs_pos r + nat (n + 50) * nat c\<rparr>)"
    and wf: "wf_nd y0" and s0: "shape0 y0 = nat (n + 50)" and s1: "shape1 y0 = nat c"
    and en: "\<forall>i<nat (n + 50). \<forall>j<nat c. rows y0 ! i ! j = rs_stream r (rs_pos r + i * nat c + j)"
    using adf_draw_ok [of n c r] assms by auto
  let ?lead = "adf_lead (adf_walk y0)" and ?lag = "adf_lag (adf_walk y0)"
  have wl: "wf_nd ?lead" "wf_nd ?lag" using wf by (simp_all add: wf_lead wf_lag wf_walk)
  have sl: "shape0 ?lead = nat (n - 1)" "shape0 ?lag = nat (n - 1)"
    "shape1 ?lead = nat c" "shape1 ?lag = nat c"
    using s0 s1 assms by simp_all
  have d': "adf_draw n c (case Some r of None \<Rightarrow> seeded gauss 0 | Some r \<Rightarrow> r) =
      Inr (y0, r\<lparr>rs_pos := rs_pos r + nat (n + 50) * nat c\<rparr>)"
    using d by simp
  have sim: "adf_simulation gauss pinv n trend c (Some r) g =
      Inr (adf_stat ?lead ?lag, Some (r\<lparr>rs_pos := rs_pos r + nat (n + 50) * nat c\<rparr>), g)"
    using adf_simulation_no_regressors [OF z d', of pinv g] by simp
  have len: "length (adf_stat ?lead ?lag) = nat c"
    using length_adf_stat [OF wl] sl by simp
  have col: "adf_stat ?lead ?lag ! j =
      np_mul (real (nat (n - 1)))
        (np_sub (np_div
           (\<Sum>t<nat (n - 1). (\<Sum>i<t + 51. rs_stream r (rs_pos r + i * nat c + j)) *
                               (\<Sum>i<t + 52. rs_stream r (rs_pos r + i * nat c + j)))
           (\<Sum>t<nat (n - 1). (\<Sum>i<t + 51. rs_stream r (rs_pos r + i * nat c + j)) ^ 2)) 1)"
    if j: "j < nat c" for j
  proof -
    have lg: "rows ?lag ! t ! j = (\<Sum>i<t + 51. rs_stream r (rs_pos r + i * nat c + j))"
      if t: "t < nat (n - 1)" for t
    proof -
      have b: "t + 51 < shape0 y0" using t s0 by simp
      have "rows ?lag ! t ! j = (\<Sum>i<t + 51. rows y0 ! i ! j)"
        using lag_nth [OF wf b] j s1 by simp
      also have "\<dots> = (\<Sum>i<t + 51. rs_stream r (rs_pos r + i * nat c + j))"
        using en j b s0 by (intro sum.cong) simp_all
      finally show ?thesis .
    qed
    have ld: "rows ?lead ! t ! j = (\<Sum>i<t + 52. rs_stream r (rs_pos r + i * nat c + j))"
      if t: "t < nat (n - 1)" for t
    proof -
      have b: "t + 51 < shape0 y0" using t s0 by simp
      have "rows ?lead ! t ! j = (\<Sum>i<t + 52. rows y0 ! i ! j)"
        using lead_nth [OF wf b] j s1 by simp
      also have "\<dots> = (\<Sum>i<t + 52. rs_stream r (rs_pos r + i * nat c + j))"
        using en j b s0 by (intro sum.cong) simp_all
      finally show ?thesis .
    qed
    have "adf_stat ?lead ?lag ! j =
      np_mul (real (shape0 ?lead))
        (np_sub (np_div (\<Sum>t<shape0 ?lead. rows ?lag ! t ! j * rows ?lead ! t ! j)
                        (\<Sum>t<shape0 ?lead. (rows ?lag ! t ! j) ^ 2)) 1)"
      using wl sl j by (intro adf_stat_nth) simp_all
    also have "(\<Sum>t<shape0 ?lead. rows ?lag ! t ! j * rows ?lead ! t ! j) =
        (\<Sum>t<nat (n - 1). (\<Sum>i<t + 51. rs_stream r (rs_pos r + i * nat c + j)) *
                               (\<Sum>i<t + 52. rs_stream r (rs_pos r + i * nat c + j)))"
      unfolding sl using lg ld by (intro sum.cong) simp_all
    also have "(\<Sum>t<shape0 ?lead. (rows ?lag ! t ! j) ^ 2) =
        (\<Sum>t<nat (n - 1). (\<Sum>i<t + 51. rs_stream r (rs_pos r + i * nat c + j)) ^ 2)"
      unfolding sl using lg by (intro sum.cong) simp_all
    finally show ?thesis unfolding sl .
  qed
  from sim len col show ?thesis by simp
qed

lemma adf_simulation_zero_stream:
  assumes "0 < n" and "0 \<le> c" and "trend \<notin> {''c'', ''ct'', ''ctt''}"
    and "\<forall>k. rs_stream r k = 0"
    and "adf_simulation gauss pinv n trend c (Some r) g = Inr (stat, r', g')"
  shows "\<forall>j<length stat. stat ! j = NaN"
proof -
  obtain st where s: "adf_simulation gauss pinv n trend c (Some r) g =
             Inr (st, Some (r\<lparr>rs_pos := rs_pos r + nat (n + 50) * nat c\<rparr>), g)"
    and l: "length st = nat c"
    and e: "\<forall>j<nat c. st ! j =
              np_mul (real (nat (n - 1)))
                (np_sub (np_div
                   (\<Sum>t<nat (n - 1). (\<Sum>i<t + 51. rs_stream r (rs_pos r + i * nat c + j)) *
                                       (\<Sum>i<t + 52. rs_stream r (rs_pos r + i * nat c + j)))
                   (\<Sum>t<nat (n - 1). (\<Sum>i<t + 51. rs_stream r (rs_pos r + i * nat c + j)) ^ 2)) 1)"
    using adf_simulation_plain [OF assms(1,2,3), of gauss pinv r g] by blast
  have "st = stat" using s assms(5) by simp
  then show ?thesis using l e assms(4) by (simp add: np_div_def)
qed

lemma adf_simulation_positive_stream:
  assumes "1 < n" and "0 \<le> c" and "trend \<notin> {''c'', ''ct'', ''ctt''}"
    and "\<forall>k. 0 < rs_stream r k"
    and "adf_simulation gauss pinv n trend c (Some r) g = Inr (stat, r', g')"
  shows "\<forall>j<length stat. is_fin (stat ! j)"
proof -
  have n: "0 < n" using assms(1) by simp
  obtain st where s: "adf_simulation gauss pinv n trend c (Some r) g =
             Inr (st, Some (r\<lparr>rs_pos := rs_pos r + nat (n + 50) * nat c\<rparr>), g)"
    and l: "length st = nat c"
    and e: "\<forall>j<nat c. st ! j =
              np_mul (real (nat (n - 1)))
                (np_sub (np_div
                   (\<Sum>t<nat (n - 1). (\<Sum>i<t + 51. rs_stream r (rs_pos r + i * nat c + j)) *
                                       (\<Sum>i<t + 52. rs_stream r (rs_pos r + i * nat c + j)))
                   (\<Sum>t<nat (n - 1). (\<Sum>i<t + 51. rs_stream r (rs_pos r + i * nat c + j)) ^ 2)) 1)"
    using adf_simulation_plain [OF n assms(2,3), of gauss pinv r g] by blast
  have eq: "st = stat" using s assms(5) by simp
  have "is_fin (st ! j)" if j: "j < nat c" for j
  proof -
    let ?w = "\<lambda>t. (\<Sum>i<t + 51. rs_stream r (rs_pos r + i * nat c + j))"
    have w: "0 < ?w t" for t
      using assms(4) by (intro sum_pos) (simp_all add: lessThan_empty_iff)
    have "0 < (\<Sum>t<nat (n - 1). (?w t) ^ 2)"
    proof (rule sum_pos)
      show "finite {..<nat (n - 1)}" by simp
      show "{..<nat (n - 1)} \<noteq> {}" using assms(1) by (simp add: lessThan_empty_iff)
      show "0 < (?w t) ^ 2" if "t \<in> {..<nat (n - 1)}" for t
        using w [of t] by simp
    qed
    then have "(\<Sum>t<nat (n - 1). (?w t) ^ 2) \<noteq> 0" by simp
    then show ?thesis using e j by (simp add: np_div_def)
  qed
  then show ?thesis using eq l by simp
qed

lemma block_of_entry:
  fixes b bs :: int and j :: nat
  assumes bs: "0 < bs" and j: "j < nat b"
  defines "k \<equiv> j div nat bs"
  shows "k < nat ((b + bs - 1) div bs)"
    and "j - k * nat bs < nat (min bs (b - int k * bs))"
    and "k * nat bs + (j - k * nat bs) = j"
proof -
  have kj: "k * nat bs \<le> j" unfolding k_def by simp
  then show "k * nat bs + (j - k * nat bs) = j" by simp
  have ik: "int k * bs \<le> int j"
  proof -
    have "int (k * nat bs) \<le> int j" using kj by (simp only: of_nat_le_iff)
    then show ?thesis using bs by simp
  qed
  have jb: "int j < b" using j by simp
  have "(int k + 1) * bs \<le> b + bs - 1" using ik jb by (simp add: algebra_simps)
  then have "((int k + 1) * bs) div bs \<le> (b + bs - 1) div bs"
    using bs by (intro zdiv_mono1) simp_all
  then have "int k + 1 \<le> (b + bs - 1) div bs" using bs by simp
  then show "k < nat ((b + bs - 1) div bs)" by simp
  have "j mod nat bs < nat bs" using bs by simp
  moreover have "j - k * nat bs = j mod nat bs"
    unfolding k_def by (simp add: minus_div_mult_eq_mod)
  ultimately have a: "int (j - k * nat bs) < bs" by simp
  have "int (j - k * nat bs) = int j - int k * bs" using kj bs by (simp add: of_nat_diff)
  then have c: "int (j - k * nat bs) < b - int k * bs" using jb by simp
  from a c have "int (j - k * nat bs) < min bs (b - int k * bs)" by simp
  then show "j - k * nat bs < nat (min bs (b - int k * bs))"
    by (simp only: zless_nat_eq_int_zless)
qed

lemma wrapper_entries:
  assumes n: "0 < n" and b: "0 \<le> b" and bs: "0 < block_size_of M n"
    and pv: "\<forall>zm. adf_regressors n trend = Inr (Some zm) \<longrightarrow> pinv_shaped pinv zm"
    and sv: "0 \<le> sd" "sd < 2 ^ 32"
    and Q: "\<And>c r stat r'. 0 \<le> c \<Longrightarrow> rs_stream r = gauss sd \<Longrightarrow>
              adf_simulation gauss pinv n trend c (Some r) glob = Inr (stat, Some r', glob) \<Longrightarrow>
              \<forall>i<length stat. Q (stat ! i)"
  shows "\<exists>res. wrapper M gauss pinv n trend b sd glob = Inr (res, glob) \<and> length res = nat b \<and>
           (\<forall>j<nat b. Q (res ! j))"
proof -
  let ?bs = "block_size_of M n"
  obtain res where r: "wrapper M gauss pinv n trend b sd glob = Inr (res, glob)"
    and l: "length res = nat b"
    and blk: "\<forall>k<nat ((b + ?bs - 1) div ?bs). \<exists>stat r'.
              adf_simulation gauss pinv n trend (min ?bs (b - int k * ?bs))
                (Some \<lparr>rs_stream = gauss sd, rs_pos = nat (n + 50) * (k * nat ?bs)\<rparr>)
                glob = Inr (stat, Some r', glob) \<and>
              length stat = nat (min ?bs (b - int k * ?bs)) \<and>
              take (length stat) (drop (k * nat ?bs) res) = stat"
    using wrapper_blocks [OF n b bs pv sv, of gauss glob] by blast
  have "Q (res ! j)" if j: "j < nat b" for j
  proof -
    define k where "k = j div nat ?bs"
    define i where "i = j - k * nat ?bs"
    note be = block_of_entry [OF bs j, folded k_def, folded i_def]
    from blk be(1) obtain stat r' where
      s: "adf_simulation gauss pinv n trend (min ?bs (b - int k * ?bs))
                (Some \<lparr>rs_stream = gauss sd, rs_pos = nat (n + 50) * (k * nat ?bs)\<rparr>)
                glob = Inr (stat, Some r', glob)"
      and ls: "length stat = nat (min ?bs (b - int k * ?bs))"
      and tk: "take (length stat) (drop (k * nat ?bs) res) = stat"
      by blast
    have i: "i < length stat" using be(2) ls by simp
    have "int i < min ?bs (b - int k * ?bs)"
      using be(2) by (simp only: zless_nat_eq_int_zless)
    then have c: "0 \<le> min ?bs (b - int k * ?bs)" by arith
    have "Q (stat ! i)"
      using Q [OF c _ s] i by simp
    moreover have "stat ! i = take (length stat) (drop (k * nat ?bs) res) ! i"
      using tk by simp
    then have "stat ! i = res ! (k * nat ?bs + i)"
      using i j l be(3) by simp
    ultimately show ?thesis using be(3) by simp
  qed
  with r l show ?thesis by blast
qed

lemma T_range: "t \<in> set T \<Longrightarrow> 20 \<le> t \<and> t \<le> 2000"
  by (auto simp: T_def)

lemma bs_T:
  assumes "t \<in> set T"
  shows "0 < block_size_of MAX_MEMORY_SIZE t"
proof -
  have t: "20 \<le> t" "t \<le> 2000" using T_range [OF assms] by simp_all
  let ?x = "2 ^ 20 * 100 / (8 * real_of_int t) :: real"
  have "real_of_int t \<le> 2000" using t by simp
  then have "8 * real_of_int t \<le> 2 ^ 20 * 100" by simp
  moreover have "0 < 8 * real_of_int t" using t by simp
  ultimately have "1 \<le> ?x" by (simp add: le_divide_eq)
  then have "1 \<le> \<lfloor>?x\<rfloor>" "0 \<le> ?x" using t by (simp_all add: le_floor_iff)
  then show ?thesis by (simp add: block_size_of_def py_int_def MAX_MEMORY_SIZE_def)
qed

lemma engine_run_entries:
  assumes t: "t \<in> set T" and b: "0 \<le> b"
    and pv: "\<forall>zm. adf_regressors t tr = Inr (Some zm) \<longrightarrow> pinv_shaped pinv zm"
    and sv: "0 \<le> s" "s < 2 ^ 32"
    and Q: "\<And>c r stat r'. 0 \<le> c \<Longrightarrow> rs_stream r = gauss s \<Longrightarrow>
              adf_simulation gauss pinv t tr c (Some r) glob = Inr (stat, Some r', glob) \<Longrightarrow>
              \<forall>i<length stat. Q (stat ! i)"
  shows "\<exists>xs. engine_run gauss pinv glob t tr b s = Inr xs \<and> length xs = nat b \<and>
           (\<forall>j<nat b. Q (xs ! j))"
proof -
  have n: "0 < t" using T_range [OF t] by simp
  have "\<exists>res. wrapper MAX_MEMORY_SIZE gauss pinv t tr b s glob = Inr (res, glob) \<and>
      length res = nat b \<and> (\<forall>j<nat b. Q (res ! j))"
  proof (rule wrapper_entries [where Q = Q, OF n b bs_T [OF t] pv sv])
    fix c r stat r'
    assume "0 \<le> c" and "rs_stream r = gauss s"
      and "adf_simulation gauss pinv t tr c (Some r) glob = Inr (stat, Some r', glob)"
    then show "\<forall>i<length stat. Q (stat ! i)" by (rule Q)
  qed
  then show ?thesis by (auto simp: engine_run_def)
qed

lemma engine_finite_draws:
  assumes sv: "\<forall>s \<in> set sds. 0 \<le> s \<and> s < 2 ^ 32"
    and pv: "\<forall>t \<in> set T. \<forall>zm. adf_regressors t tr = Inr (Some zm) \<longrightarrow> pinv_shaped pinv zm"
    and fs: "finite_statistics (engine_run gauss pinv glob) sds tr"
  shows "finite_draws (engine_run gauss pinv glob) sds tr"
proof -
  have "\<exists>xs. engine_run gauss pinv glob t tr EX_SIZE s = Inr xs \<and> xs \<noteq> [] \<and> list_all is_fin xs"
    if t: "t \<in> set T" and s: "s \<in> set sds" for t s
  proof -
    have p: "\<forall>zm. adf_regressors t tr = Inr (Some zm) \<longrightarrow> pinv_shaped pinv zm"
      using pv t by blast
    have v: "0 \<le> s" "s < 2 ^ 32" using sv s by simp_all
    have b: "0 \<le> EX_SIZE" by (simp add: EX_SIZE_def)
    have "\<exists>xs. engine_run gauss pinv glob t tr EX_SIZE s = Inr xs \<and> length xs = nat EX_SIZE \<and>
        (\<forall>j<nat EX_SIZE. True)"
      by (rule engine_run_entries [where Q = "\<lambda>v. True", OF t b p v]) simp
    then obtain xs where x: "engine_run gauss pinv glob t tr EX_SIZE s = Inr xs"
      and l: "length xs = nat EX_SIZE"
      by blast
    have "xs \<noteq> []" using l by (auto simp: EX_SIZE_def)
    moreover have "list_all is_fin xs"
      using fs t s x unfolding finite_statistics_def by blast
    ultimately show ?thesis using x by simp
  qed
  then show ?thesis unfolding finite_draws_def by blast
qed

lemma seeds_int_valid: "s \<in> set (seeds int) \<Longrightarrow> 0 \<le> s \<and> s < 2 ^ 32"
  by (auto simp: seeds_def EX_NUM_def)

lemma ramp_finite_statistics:
  "finite_statistics (engine_run ramp pinv zero_glob) (seeds int) ''nc''"
proof -
  have "list_all is_fin xs"
    if t: "t \<in> set T" and s: "s \<in> set (seeds int)"
      and x: "engine_run ramp pinv zero_glob t ''nc'' EX_SIZE s = Inr xs" for t s xs
  proof -
    have n: "1 < t" using T_range [OF t] by simp
    have b: "0 \<le> EX_SIZE" by (simp add: EX_SIZE_def)
    have v: "0 \<le> s" "s < 2 ^ 32" using seeds_int_valid [OF s] by simp_all
    have tr: "''nc'' \<notin> {''c'', ''ct'', ''ctt''}" by simp
    have Q: "\<forall>i<length stat. is_fin (stat ! i)"
      if "0 \<le> c" and "rs_stream r = ramp s"
        and "adf_simulation ramp pinv t ''nc'' c (Some r) zero_glob = Inr (stat, Some r', zero_glob)"
      for c r stat r'
    proof -
      have "\<forall>k. 0 < rs_stream r k" using that(2) by (simp add: ramp_def)
      from adf_simulation_positive_stream [OF n that(1) tr this that(3)] show ?thesis .
    qed
    have "\<exists>ys. engine_run ramp pinv zero_glob t ''nc'' EX_SIZE s = Inr ys \<and>
        length ys = nat EX_SIZE \<and> (\<forall>j<nat EX_SIZE. is_fin (ys ! j))"
    proof (rule engine_run_entries [where Q = is_fin, OF t b nc_pinv v])
      fix c r stat r'
      assume "0 \<le> c" and "rs_stream r = ramp s"
        and "adf_simulation ramp pinv t ''nc'' c (Some r) zero_glob = Inr (stat, Some r', zero_glob)"
      then show "\<forall>i<length stat. is_fin (stat ! i)" by (rule Q)
    qed
    with x show ?thesis by (auto simp: list_all_length)
  qed
  then show ?thesis unfolding finite_statistics_def by blast
qed

lemma zero_gauss_units:
  assumes t: "t \<in> set T" and s: "s \<in> set (seeds int)"
  shows "\<exists>xs. engine_run zero_gauss pinv zero_glob t ''nc'' EX_SIZE s = Inr xs \<and>
           xs = replicate (nat EX_SIZE) NaN"
proof -
  have n: "0 < t" using T_range [OF t] by simp
  have b: "0 \<le> EX_SIZE" by (simp add: EX_SIZE_def)
  have v: "0 \<le> s" "s < 2 ^ 32" using seeds_int_valid [OF s] by simp_all
  have tr: "''nc'' \<notin> {''c'', ''ct'', ''ctt''}" by simp
  have Q: "\<forall>i<length stat. stat ! i = NaN"
    if "0 \<le> c" and "rs_stream r = zero_gauss s"
      and "adf_simulation zero_gauss pinv t ''nc'' c (Some r) zero_glob = Inr (stat, Some r', zero_glob)"
    for c r stat r'
  proof -
    have "\<forall>k. rs_stream r k = 0" using that(2) by (simp add: zero_gauss_def)
    from adf_simulation_zero_stream [OF n that(1) tr this that(3)] show ?thesis .
  qed
  have "\<exists>ys. engine_run zero_gauss pinv zero_glob t ''nc'' EX_SIZE s = Inr ys \<and>
      length ys = nat EX_SIZE \<and> (\<forall>j<nat EX_SIZE. ys ! j = NaN)"
  proof (rule engine_run_entries [where Q = "\<lambda>v. v = NaN", OF t b nc_pinv v])
    fix c r stat r'
    assume "0 \<le> c" and "rs_stream r = zero_gauss s"
      and "adf_simulation zero_gauss pinv t ''nc'' c (Some r) zero_glob = Inr (stat, Some r', zero_glob)"
    then show "\<forall>i<length stat. stat ! i = NaN" by (rule Q)
  qed
  then obtain ys where y: "engine_run zero_gauss pinv zero_glob t ''nc'' EX_SIZE s = Inr ys"
    and l: "length ys = nat EX_SIZE" and e: "\<forall>j<nat EX_SIZE. ys ! j = NaN"
    by blast
  have "ys = replicate (nat EX_SIZE) NaN"
    using l e by (intro nth_equalityI) simp_all
  with y show ?thesis by simp
qed

lemma collect_units:
  fixes run :: "int \<Rightarrow> string \<Rightarrow> int \<Rightarrow> int \<Rightarrow> error + npfloat list"
  assumes "\<forall>s \<in> set sds. \<exists>xs. run t tr EX_SIZE s = Inr xs \<and> P xs" and "length sds = EX_NUM"
  shows "\<exists>out. collect (map_async run (submit_args sds t tr)) = Inr out \<and> length out = EX_NUM \<and>
           (\<forall>x \<in> set out. P x)"
proof -
  define f where "f = (\<lambda>(n, tr, b, s). run n tr b s)"
  define g where "g = (\<lambda>a. case f a of Inl e \<Rightarrow> [] | Inr xs \<Rightarrow> xs)"
  have fa: "f a = Inr (g a) \<and> P (g a)"
    if "a \<in> set (submit_args sds t tr)" for a
  proof -
    from that obtain s where s: "s \<in> set sds" and a: "a = (t, tr, EX_SIZE, s)"
      using submit_args_set by blast
    from assms(1) s obtain xs where "run t tr EX_SIZE s = Inr xs" "P xs"
      by blast
    then show ?thesis by (simp add: a f_def g_def)
  qed
  then have "collect (map f (submit_args sds t tr)) = Inr (map g (submit_args sds t tr))"
    by (intro collect_all_Inr) simp
  moreover have "length (map g (submit_args sds t tr)) = EX_NUM"
    using assms(2) by (simp add: length_submit_args)
  moreover have "\<forall>x \<in> set (map g (submit_args sds t tr)). P x"
    using fa by auto
  ultimately show ?thesis unfolding map_async_def f_def by blast
qed

lemma percentile_nan:
  "\<not> list_all is_fin x \<Longrightarrow> percentile x percentiles = Inr (replicate (length percentiles) NaN)"
proof -
  assume a: "\<not> list_all is_fin x"
  have "\<not> (\<exists>q \<in> set percentiles. q < 0 \<or> 100 < q)"
    using percentiles_range by fastforce
  then show ?thesis using a
    by (simp add: percentile_def map_replicate_const del: length_percentiles)
qed

lemma nan_table_eq: "nan_table np nl nr = replicate np (replicate nl (replicate nr NaN))"
  by (simp add: nan_table_def)

lemma transpose_q_nan:
  "transpose_q np (map (\<lambda>x. replicate np NaN) out) = replicate np (replicate (length out) NaN)"
proof -
  have "map (\<lambda>q. q ! p) (map (\<lambda>x. replicate np NaN) out) = replicate (length out) NaN"
    if "p < np" for p
    using that by (simp add: map_replicate_const o_def)
  then have "map (\<lambda>p. map (\<lambda>q. q ! p) (map (\<lambda>x. replicate np NaN) out)) [0..<np] =
      map (\<lambda>p. replicate (length out) NaN) [0..<np]"
    by (intro map_cong) simp_all
  then show ?thesis by (simp add: transpose_q_def map_replicate_const)
qed

lemma set_length_slice_nan:
  assumes "i < nl"
  shows "set_length_slice (nan_table np nl nr) i (replicate np (replicate nr NaN)) = nan_table np nl nr"
proof -
  have "(replicate nl (replicate nr NaN))[i := replicate nr NaN] = replicate nl (replicate nr NaN)"
    using assms by (intro nth_equalityI) (simp_all add: nth_list_update)
  then show ?thesis
    by (simp add: set_length_slice_def nan_table_eq zip_replicate)
qed

lemma driver_round_nan:
  assumes u: "\<forall>s \<in> set sds. \<exists>xs. run t tr EX_SIZE s = Inr xs \<and> \<not> list_all is_fin xs"
    and ls: "length sds = EX_NUM" and k: "k < m"
    and tb: "d_results st = nan_table (length percentiles) m EX_NUM"
    and idle: "outstanding (d_rc st) = {}"
  shows "\<exists>st'. driver_round run sds tr (k, t) st = Inr st' \<and>
           d_results st' = nan_table (length percentiles) m EX_NUM"
proof -
  obtain out where out: "collect (map_async run (submit_args sds t tr)) = Inr out"
    and lo: "length out = EX_NUM" and fo: "\<forall>x \<in> set out. \<not> list_all is_fin x"
    using collect_units [where P = "\<lambda>x. \<not> list_all is_fin x" and run = run, OF u ls] by blast
  have "\<forall>x \<in> set out. percentile x percentiles = Inr (replicate (length percentiles) NaN)"
    using fo percentile_nan by blast
  then have qs: "collect (map (\<lambda>x. percentile x percentiles) out) =
      Inr (map (\<lambda>x. replicate (length percentiles) NaN) out)"
    by (rule collect_all_Inr)
  let ?ids = "[k * EX_NUM..<k * EX_NUM + EX_NUM]"
  let ?pool = "pool_ready ?ids out (pool_submit ?ids (d_rc st, d_lview st))"
  have op: "outstanding (fst ?pool) = {}"
    using idle by (simp add: pool_ready_def pool_submit_def)
  obtain rc' lview' where cc: "clear_cache (fst ?pool) (fst ?pool) (snd ?pool) = Inr (rc', lview')"
    using op by (simp add: clear_cache_def)
  let ?res = "set_length_slice (d_results st) k
                (transpose_q (length percentiles) (map (\<lambda>x. replicate (length percentiles) NaN) out))"
  have res: "?res = nan_table (length percentiles) m EX_NUM"
    unfolding tb transpose_q_nan lo using k by (rule set_length_slice_nan)
  have "driver_round run sds tr (k, t) st =
      Inr (st\<lparr>d_results := ?res,
              d_disk := (d_disk st)(''adf_z_'' @ tr @ ''.npz'' \<mapsto>
                 \<lparr>a_trend = tr, a_results = ?res, a_percentiles = percentiles, a_T = T\<rparr>),
              d_rc := rc', d_lview := lview'\<rparr>)"
    using out cc qs by (simp add: driver_round_def Let_def del: length_percentiles)
  then show ?thesis using res by simp
qed

lemma take_1_T: "take 1 (enumerate 0 T) = [(0, 2000)]"
  by (simp add: T_def)

section \<open>C6: the results table and its checkpoints\<close>




end
